theory Spec2Isabelle
  imports Main "HOL-Library.Word"
begin

unbundle bit_operations_syntax

section \<open>The stream abstraction (FreeImageIO)\<close>

text \<open>
  A stream handle is the file content and the read position. The three callbacks of
  FreeImageIO used by the codecs follow the C library calls that SetDefaultIO installs:
  \<^item> \<open>read_proc buffer size count handle\<close> is \<open>fread\<close>: it transfers as many bytes as
    are left, up to \<open>size * count\<close>, and returns the number of complete items;
  \<^item> \<open>seek_proc handle offset SEEK_SET\<close> and \<open>SEEK_CUR\<close>;
  \<^item> \<open>tell_proc handle\<close>.
\<close>

type_synonym byte = "8 word"

record fi_stream =
  content :: "byte list"
  pos :: nat

definition read_proc :: "fi_stream \<Rightarrow> nat \<Rightarrow> nat \<Rightarrow> nat \<times> byte list \<times> fi_stream" where
  "read_proc s sz cnt =
     (let n = min (sz * cnt) (length (content s) - pos s);
          bytes = take n (drop (pos s) (content s))
      in (if sz = 0 then 0 else n div sz, bytes, s\<lparr>pos := pos s + n\<rparr>))"

definition tell_proc :: "fi_stream \<Rightarrow> nat" where
  "tell_proc s = pos s"

definition seek_set :: "fi_stream \<Rightarrow> nat \<Rightarrow> fi_stream" where
  "seek_set s off = s\<lparr>pos := off\<rparr>"

definition seek_cur :: "fi_stream \<Rightarrow> nat \<Rightarrow> fi_stream" where
  "seek_cur s off = s\<lparr>pos := pos s + off\<rparr>"

text \<open>
  A local array that a read fills from its start: the bytes read overwrite the front of
  the initial content (\<open>uint8_t signature[6] = {0, ...}\<close> followed by a read into it).
\<close>

definition fill_buffer :: "byte list \<Rightarrow> byte list \<Rightarrow> byte list" where
  "fill_buffer init bytes = bytes @ drop (length bytes) init"

section \<open>Signature probes of the codecs\<close>

text \<open>PluginGIF.cpp, Validate: six bytes compared with "GIF89a" and "GIF87a".\<close>

definition GIF89a :: "byte list" where
  "GIF89a = [0x47, 0x49, 0x46, 0x38, 0x39, 0x61]"

definition GIF87a :: "byte list" where
  "GIF87a = [0x47, 0x49, 0x46, 0x38, 0x37, 0x61]"

definition GIF_Validate :: "fi_stream \<Rightarrow> bool \<times> fi_stream" where
  "GIF_Validate s =
     (let (n, bytes, s1) = read_proc s 1 6;
          signature = fill_buffer [0, 0, 0, 0, 0, 0] bytes
      in (if GIF89a = signature then True
          else if GIF87a = signature then True
          else False, s1))"

text \<open>PluginBMP.cpp, Validate: two bytes compared with "BM" and "BA".\<close>

definition BMP_Validate :: "fi_stream \<Rightarrow> bool \<times> fi_stream" where
  "BMP_Validate s =
     (let (n, bytes, s1) = read_proc s 1 2;
          signature = fill_buffer [0, 0] bytes
      in (if [0x42, 0x4D] = signature then True
          else if [0x42, 0x41] = signature then True
          else False, s1))"

text \<open>PluginSGI.cpp, Validate.\<close>

definition SGI_Validate :: "fi_stream \<Rightarrow> bool \<times> fi_stream" where
  "SGI_Validate s =
     (let (n, bytes, s1) = read_proc s 1 2;
          signature = fill_buffer [0, 0] bytes
      in ([0x01, 0xDA] = signature, s1))"

text \<open>PluginJ2K.cpp, Validate: this probe seeks back by itself.\<close>

definition J2K_Validate :: "fi_stream \<Rightarrow> bool \<times> fi_stream" where
  "J2K_Validate s =
     (let tell = tell_proc s;
          (n, bytes, s1) = read_proc s 1 2;
          signature = fill_buffer [0, 0] bytes;
          s2 = seek_set s1 tell
      in ([0xFF, 0x4F] = signature, s2))"

text \<open>
  PluginPCX.cpp, pcx_validate: four bytes must be read; then the magic number, the
  version, the encoding and the bits per pixel per plane are checked in this order.
\<close>

definition pcx_validate :: "fi_stream \<Rightarrow> bool \<times> fi_stream" where
  "pcx_validate s =
     (let (n, bytes, s1) = read_proc s 1 4;
          signature = fill_buffer [0, 0, 0, 0] bytes
      in if n \<noteq> 4 then (False, s1)
         else if signature ! 0 = 0x0A then
           (if signature ! 1 \<le> 5 then
              (if signature ! 2 = 0 \<or> signature ! 2 = 1 then
                 (if signature ! 3 = 1 \<or> signature ! 3 = 8 then (True, s1)
                  else (False, s1))
               else (False, s1))
            else (False, s1))
         else (False, s1))"

definition PCX_Validate :: "fi_stream \<Rightarrow> bool \<times> fi_stream" where
  "PCX_Validate s = pcx_validate s"

section \<open>Format registry and detection (GetType.cpp)\<close>

datatype FREE_IMAGE_FORMAT =
  FIF_UNKNOWN | FIF_BMP | FIF_GIF | FIF_J2K | FIF_PCX | FIF_SGI | FIF_TIFF | FIF_RAW
  | FIF_OTHER nat

text \<open>
  A node of the registry: whether the codec is enabled, and its validate callback
  (\<open>plugin->validate_proc\<close>, which may be null).
\<close>

record plugin_node =
  IsEnabled :: bool
  validate_proc :: "(fi_stream \<Rightarrow> bool \<times> fi_stream) option"

type_synonym registry = "(FREE_IMAGE_FORMAT \<times> plugin_node option) list"

text \<open>
  Modelled from the spec: the probe of one codec by the engine, \<open>node->Validate(io, handle)\<close>.
  PluginNode is declared in Plugin.h and defined in Plugin.cpp, which are not among the
  sources. The spec, 4.1: the predicate "must leave the stream position unchanged on
  return (callers rely on exact pre/post position symmetry -- the engine restores the
  original offset around each probe)". The comment above Validate in PluginPCX.cpp says
  the same: "the entry point is stored prior to calling this function and restored after".
\<close>

definition node_Validate :: "plugin_node \<Rightarrow> fi_stream \<Rightarrow> bool \<times> fi_stream" where
  "node_Validate node s =
     (case validate_proc node of
        None \<Rightarrow> (False, s)
      | Some v \<Rightarrow>
          (let tell = tell_proc s;
               (validated, s1) = v s
           in (validated, seek_set s1 tell)))"

text \<open>
  Modelled from the spec: \<open>FreeImage_ValidateFIF(fif, io, handle)\<close>, defined in Plugin.cpp.
  The spec, 4.1: the stream "must be re-probed against a raw-sensor-format codec if
  registered ...; if the raw probe also succeeds, it takes precedence".
\<close>

definition FreeImage_ValidateFIF ::
  "registry \<Rightarrow> FREE_IMAGE_FORMAT \<Rightarrow> fi_stream \<Rightarrow> bool \<times> fi_stream" where
  "FreeImage_ValidateFIF reg fif s =
     (case map_of reg fif of
        Some (Some node) \<Rightarrow> node_Validate node s
      | _ \<Rightarrow> (False, s))"

text \<open>
  The loop of FreeImage_GetFileTypeFromHandle over the registry in its order:
  \<open>if (node && node->IsEnabled() && node->Validate(io, handle)) { deducedFif = fif; break; }\<close>
\<close>

fun probe_nodes :: "registry \<Rightarrow> fi_stream \<Rightarrow> FREE_IMAGE_FORMAT \<times> fi_stream" where
  "probe_nodes [] s = (FIF_UNKNOWN, s)"
| "probe_nodes ((fif, node) # rest) s =
     (case node of
        None \<Rightarrow> probe_nodes rest s
      | Some n \<Rightarrow>
          if IsEnabled n then
            (let (validated, s1) = node_Validate n s
             in if validated then (fif, s1) else probe_nodes rest s1)
          else probe_nodes rest s)"

text \<open>
  FreeImage_GetFileTypeFromHandle. The handle may be null (\<open>None\<close>). The result is the
  deduced format and the handle as the call leaves it.
\<close>

definition FreeImage_GetFileTypeFromHandle ::
  "registry \<Rightarrow> fi_stream option \<Rightarrow> FREE_IMAGE_FORMAT \<times> fi_stream option" where
  "FreeImage_GetFileTypeFromHandle reg handle =
     (let (deducedFif, h1) =
            (case handle of
               None \<Rightarrow> (FIF_UNKNOWN, None)
             | Some s \<Rightarrow> (let (fif, s1) = probe_nodes reg s in (fif, Some s1)))
      in if deducedFif = FIF_TIFF then
           (case h1 of
              None \<Rightarrow> (deducedFif, h1)
            | Some s1 \<Rightarrow>
                (let (validated, s2) = FreeImage_ValidateFIF reg FIF_RAW s1
                 in (if validated then FIF_RAW else deducedFif, Some s2)))
         else (deducedFif, h1))"

text \<open>
  What a claim about detection can say of a codec: it is registered, enabled, and its
  probe succeeds on the stream.
\<close>

definition accepts :: "fi_stream \<Rightarrow> FREE_IMAGE_FORMAT \<times> plugin_node option \<Rightarrow> bool" where
  "accepts s entry =
     (case snd entry of
        None \<Rightarrow> False
      | Some n \<Rightarrow> IsEnabled n \<and> fst (node_Validate n s))"

text \<open>A validate callback only reads: it leaves the content of the stream as it is.\<close>

definition reads_only :: "(fi_stream \<Rightarrow> bool \<times> fi_stream) \<Rightarrow> bool" where
  "reads_only v = (\<forall>s. content (snd (v s)) = content s)"

definition registry_reads_only :: "registry \<Rightarrow> bool" where
  "registry_reads_only reg =
     list_all (\<lambda>entry. case snd entry of
                 None \<Rightarrow> True
               | Some n \<Rightarrow> (case validate_proc n of None \<Rightarrow> True | Some v \<Rightarrow> reads_only v)) reg"

section \<open>GIF: Load (PluginGIF.cpp)\<close>

definition GIF_DISPOSAL_UNSPECIFIED :: nat where "GIF_DISPOSAL_UNSPECIFIED = 0"
definition GIF_DISPOSAL_LEAVE :: nat where "GIF_DISPOSAL_LEAVE = 1"
definition GIF_DISPOSAL_BACKGROUND :: nat where "GIF_DISPOSAL_BACKGROUND = 2"
definition GIF_DISPOSAL_PREVIOUS :: nat where "GIF_DISPOSAL_PREVIOUS = 3"

definition GIF_PACKED_GCE_DISPOSAL :: byte where "GIF_PACKED_GCE_DISPOSAL = 0x1C"
definition GIF_PACKED_GCE_HAVETRANS :: byte where "GIF_PACKED_GCE_HAVETRANS = 0x01"

text \<open>
  The load flags are declared in FreeImage.h, which is not among the sources; they have
  the values of the public header.
\<close>

definition GIF_LOAD256 :: "32 word" where "GIF_LOAD256 = 1"
definition GIF_PLAYBACK :: "32 word" where "GIF_PLAYBACK = 2"

record GIFinfo =
  read :: bool
  global_color_table_offset :: nat
  global_color_table_size :: nat
  background_color :: byte
  application_extension_offsets :: "nat list"
  comment_extension_offsets :: "nat list"
  graphic_control_extension_offsets :: "nat list"
  image_descriptor_offsets :: "nat list"

record PageInfo =
  disposal_method :: nat
  info_left :: "16 word"
  info_top :: "16 word"
  info_width :: "16 word"
  info_height :: "16 word"

text \<open>
  The handle that Load works on, with the calls made on it so far: what a mock stream
  with a call log would record.
\<close>

datatype io_call = Seek nat | Read nat nat

record gif_io =
  handle :: fi_stream
  calls :: "io_call list"

definition io_seek :: "gif_io \<Rightarrow> nat \<Rightarrow> gif_io" where
  "io_seek h off = h\<lparr>handle := seek_set (handle h) off, calls := calls h @ [Seek off]\<rparr>"

definition io_read :: "gif_io \<Rightarrow> nat \<Rightarrow> nat \<Rightarrow> nat \<times> byte list \<times> gif_io" where
  "io_read h sz cnt =
     (let (n, bytes, s1) = read_proc (handle h) sz cnt
      in (n, bytes, h\<lparr>handle := s1, calls := calls h @ [Read (pos (handle h)) (sz * cnt)]\<rparr>))"

text \<open>
  \<open>io->read_proc(&b, 1, 1, handle)\<close> and \<open>io->read_proc(&w, 2, 1, handle)\<close> (little endian).
  A short read leaves the bytes it did not reach as they were: the second argument is the
  value the variable held before.
\<close>

definition read_byte :: "gif_io \<Rightarrow> byte \<Rightarrow> byte \<times> gif_io" where
  "read_byte h old =
     (let (n, bytes, h1) = io_read h 1 1
      in (fill_buffer [old] bytes ! 0, h1))"

definition read_short :: "gif_io \<Rightarrow> 16 word \<Rightarrow> 16 word \<times> gif_io" where
  "read_short h old =
     (let (n, bytes, h1) = io_read h 2 1;
          buf = fill_buffer [ucast old, ucast (drop_bit 8 old)] bytes
      in (ucast (buf ! 0) OR push_bit 8 (ucast (buf ! 1)), h1))"

text \<open>
  The locals of Load that the playback path reads into. They are declared without an
  initial value; what they hold before the first read is a parameter of the model.
\<close>

record load_locals =
  loc_packed :: byte
  loc_have_transparent :: bool
  loc_disposal_method :: nat
  loc_left :: "16 word"
  loc_top :: "16 word"
  loc_width :: "16 word"
  loc_height :: "16 word"
  loc_logicalwidth :: "16 word"
  loc_logicalheight :: "16 word"
  loc_background :: "byte \<times> byte \<times> byte"

text \<open>
  The bitmap that Load returns, as far as the playback path is concerned: its header, the
  frame time, and, for the logical canvas, the operations drawn on it in order (the pixel
  copies themselves are not carried out in the model).
\<close>

datatype canvas_op = FillBackground PageInfo | CompositePage nat PageInfo

record FIBITMAP =
  dib_width :: nat
  dib_height :: nat
  dib_bpp :: nat
  FrameTime :: "int option"
  drawn :: "canvas_op list"

text \<open>
  What the playback path calls and the model does not embed: FreeImage_Allocate (whether it
  returns a bitmap for a width, a height and a depth) and the single-frame path of Load
  itself (lines 834 to 1060: "get the actual frame image data for a single frame"), which
  the playback path reaches through \<open>Load(io, handle, page, GIF_LOAD256, data)\<close>.
\<close>

record gif_externals =
  FreeImage_Allocate_ok :: "nat \<Rightarrow> nat \<Rightarrow> nat \<Rightarrow> bool"
  Load_frame :: "gif_io \<Rightarrow> nat \<Rightarrow> 32 word \<Rightarrow> FIBITMAP option \<times> gif_io"

text \<open>
  One round of the backward scan (lines 722 to 755): the graphic control extension and the
  image descriptor of page \<open>start\<close> are read, its PageInfo is pushed, and the round says
  whether the loop breaks.
\<close>

record scan_state =
  sc_io :: gif_io
  sc_loc :: load_locals
  sc_pageinfo :: "PageInfo list"

datatype scan_exit = Continue | BreakAfter | BreakHere

definition scan_page ::
  "GIFinfo \<Rightarrow> 16 word \<Rightarrow> 16 word \<Rightarrow> nat \<Rightarrow> nat \<Rightarrow> scan_state \<Rightarrow> scan_exit \<times> scan_state" where
  "scan_page info logicalwidth logicalheight end_page start st =
     (let loc = sc_loc st;
          h1 = io_seek (sc_io st) (graphic_control_extension_offsets info ! start + 1);
          (packed, h2) = read_byte h1 (loc_packed loc);
          have_transparent = (packed AND GIF_PACKED_GCE_HAVETRANS \<noteq> 0);
          disposal = unat (drop_bit 2 (packed AND GIF_PACKED_GCE_DISPOSAL));
          h3 = io_seek h2 (image_descriptor_offsets info ! start);
          (left, h4) = read_short h3 (loc_left loc);
          (top, h5) = read_short h4 (loc_top loc);
          (width, h6) = read_short h5 (loc_width loc);
          (height, h7) = read_short h6 (loc_height loc);
          loc1 = loc\<lparr>loc_packed := packed, loc_have_transparent := have_transparent,
                     loc_disposal_method := disposal, loc_left := left, loc_top := top,
                     loc_width := width, loc_height := height\<rparr>;
          pushed = sc_pageinfo st @
                     [\<lparr>disposal_method = disposal, info_left = left, info_top = top,
                       info_width = width, info_height = height\<rparr>];
          st1 = \<lparr>sc_io = h7, sc_loc = loc1, sc_pageinfo = pushed\<rparr>
      in if start \<noteq> end_page then
           (if left = 0 \<and> top = 0 \<and> width = logicalwidth \<and> height = logicalheight then
              (if disposal = GIF_DISPOSAL_BACKGROUND then
                 (BreakAfter, st1\<lparr>sc_pageinfo := butlast pushed\<rparr>)
               else if disposal \<noteq> GIF_DISPOSAL_PREVIOUS then
                 (if \<not> have_transparent then (BreakHere, st1) else (Continue, st1))
               else (Continue, st1))
            else (Continue, st1))
         else (Continue, st1))"

text \<open>
  The loop \<open>while (start >= 0)\<close> with \<open>start--\<close> at its end, and \<open>if (start < 0) start = 0\<close>
  after it. The result is the first page to draw.
\<close>

fun scan_pages ::
  "GIFinfo \<Rightarrow> 16 word \<Rightarrow> 16 word \<Rightarrow> nat \<Rightarrow> nat \<Rightarrow> scan_state \<Rightarrow> nat \<times> scan_state" where
  "scan_pages info lw lh end_page 0 st =
     (case scan_page info lw lh end_page 0 st of
        (BreakAfter, st1) \<Rightarrow> (1, st1)
      | (BreakHere, st1) \<Rightarrow> (0, st1)
      | (Continue, st1) \<Rightarrow> (0, st1))"
| "scan_pages info lw lh end_page (Suc k) st =
     (case scan_page info lw lh end_page (Suc k) st of
        (BreakAfter, st1) \<Rightarrow> (Suc k + 1, st1)
      | (BreakHere, st1) \<Rightarrow> (Suc k, st1)
      | (Continue, st1) \<Rightarrow> scan_pages info lw lh end_page k st1)"

text \<open>
  The forward loop \<open>for (page = start; page <= end; page++)\<close> (lines 763 to 827). A page
  before the last is skipped when its disposal is "previous" and only filled when it is
  "background"; every other page is decoded. The pages decoded are recorded.
\<close>

record draw_state =
  dr_io :: gif_io
  dr_ops :: "canvas_op list"
  dr_decoded :: "nat list"
  dr_delay_time :: int

definition draw_page :: "gif_externals \<Rightarrow> nat \<Rightarrow> PageInfo list \<Rightarrow> draw_state \<Rightarrow> nat \<Rightarrow> draw_state" where
  "draw_page ext end_page pageinfo d page =
     (let info = pageinfo ! (end_page - page)
      in if page \<noteq> end_page \<and> disposal_method info = GIF_DISPOSAL_PREVIOUS then d
         else if page \<noteq> end_page \<and> disposal_method info = GIF_DISPOSAL_BACKGROUND then
           d\<lparr>dr_ops := dr_ops d @ [FillBackground info]\<rparr>
         else
           (let (pagedib, h1) = Load_frame ext (dr_io d) page GIF_LOAD256;
                d1 = d\<lparr>dr_io := h1, dr_decoded := dr_decoded d @ [page]\<rparr>
            in case pagedib of
                 None \<Rightarrow> d1
               | Some p \<Rightarrow>
                   d1\<lparr>dr_ops := dr_ops d1 @ [CompositePage page info],
                      dr_delay_time :=
                        (if page = end_page then
                           (case FrameTime p of Some t \<Rightarrow> t | None \<Rightarrow> dr_delay_time d1)
                         else dr_delay_time d1)\<rparr>))"

definition draw_pages ::
  "gif_externals \<Rightarrow> nat \<Rightarrow> PageInfo list \<Rightarrow> nat \<Rightarrow> draw_state \<Rightarrow> draw_state" where
  "draw_pages ext end_page pageinfo start d =
     foldl (draw_page ext end_page pageinfo) d [start..<Suc end_page]"

text \<open>The playback path of Load (lines 678 to 832).\<close>

definition Load_playback ::
  "gif_externals \<Rightarrow> gif_io \<Rightarrow> nat \<Rightarrow> GIFinfo \<Rightarrow> load_locals
     \<Rightarrow> FIBITMAP option \<times> gif_io \<times> nat list" where
  "Load_playback ext h page info loc =
     (let h1 = io_seek h 6;
          (logicalwidth, h2) = read_short h1 (loc_logicalwidth loc);
          (logicalheight, h3) = read_short h2 (loc_logicalheight loc);
          (background, h4) =
            (if global_color_table_offset info \<noteq> 0
                \<and> unat (background_color info) < global_color_table_size info then
               (let h5 = io_seek h3 (global_color_table_offset info
                                       + unat (background_color info) * 3);
                    (red, h6) = read_byte h5 (fst (loc_background loc));
                    (green, h7) = read_byte h6 (fst (snd (loc_background loc)));
                    (blue, h8) = read_byte h7 (snd (snd (loc_background loc)))
                in ((red, green, blue), h8))
             else ((0, 0, 0), h3))
      in if \<not> FreeImage_Allocate_ok ext (unat logicalwidth) (unat logicalheight) 32
         then (None, h4, [])
         else
           (let (start, st) =
                  scan_pages info logicalwidth logicalheight page page
                    \<lparr>sc_io = h4, sc_loc = loc, sc_pageinfo = []\<rparr>;
                d = draw_pages ext page (sc_pageinfo st) start
                      \<lparr>dr_io = sc_io st, dr_ops = [], dr_decoded = [], dr_delay_time = 0\<rparr>
            in (Some \<lparr>dib_width = unat logicalwidth, dib_height = unat logicalheight,
                      dib_bpp = 32, FrameTime = Some (dr_delay_time d), drawn = dr_ops d\<rparr>,
                dr_io d, dr_decoded d)))"

text \<open>
  Load (lines 656 to 1067). The result is the bitmap (\<open>None\<close> for a null pointer), the
  handle with its call log, and the pages whose image data was decoded.
\<close>

definition Load ::
  "gif_externals \<Rightarrow> gif_io \<Rightarrow> int \<Rightarrow> 32 word \<Rightarrow> GIFinfo option \<Rightarrow> load_locals
     \<Rightarrow> FIBITMAP option \<times> gif_io \<times> nat list" where
  "Load ext h page flags data loc =
     (case data of
        None \<Rightarrow> (None, h, [])
      | Some info \<Rightarrow>
          (let page1 = (if page = - 1 then 0 else page)
           in if page1 < 0 \<or> page1 \<ge> int (length (image_descriptor_offsets info))
              then (None, h, [])
              else if flags AND GIF_PLAYBACK = GIF_PLAYBACK
              then Load_playback ext h (nat page1) info loc
              else (let (dib, h1) = Load_frame ext h (nat page1) flags
                    in (dib, h1, [nat page1]))))"

section \<open>GIF Load: what the claims speak of\<close>

text \<open>
  The header fields of page \<open>j\<close> as they stand in the file: the packed byte of its graphic
  control extension, and the four little-endian shorts of its image descriptor.
\<close>

definition short_at :: "byte list \<Rightarrow> nat \<Rightarrow> 16 word" where
  "short_at c off = ucast (c ! off) OR push_bit 8 (ucast (c ! (off + 1)))"

definition page_disposal :: "GIFinfo \<Rightarrow> byte list \<Rightarrow> nat \<Rightarrow> nat" where
  "page_disposal info c j =
     unat (drop_bit 2 (c ! (graphic_control_extension_offsets info ! j + 1)
                        AND GIF_PACKED_GCE_DISPOSAL))"

definition page_transparent :: "GIFinfo \<Rightarrow> byte list \<Rightarrow> nat \<Rightarrow> bool" where
  "page_transparent info c j =
     (c ! (graphic_control_extension_offsets info ! j + 1) AND GIF_PACKED_GCE_HAVETRANS \<noteq> 0)"

definition page_covers_canvas :: "GIFinfo \<Rightarrow> byte list \<Rightarrow> nat \<Rightarrow> bool" where
  "page_covers_canvas info c j =
     (short_at c (image_descriptor_offsets info ! j) = 0 \<and>
      short_at c (image_descriptor_offsets info ! j + 2) = 0 \<and>
      short_at c (image_descriptor_offsets info ! j + 4) = short_at c 6 \<and>
      short_at c (image_descriptor_offsets info ! j + 6) = short_at c 8)"

text \<open>
  A keyframe, as the scan tests it: the page covers the logical canvas, and either its
  disposal is "restore to background", or it is not "restore to previous" and the page
  has no transparent colour.
\<close>

definition keyframe :: "GIFinfo \<Rightarrow> byte list \<Rightarrow> nat \<Rightarrow> bool" where
  "keyframe info c j =
     (page_covers_canvas info c j \<and>
      (page_disposal info c j = GIF_DISPOSAL_BACKGROUND \<or>
       (page_disposal info c j \<noteq> GIF_DISPOSAL_PREVIOUS \<and> \<not> page_transparent info c j)))"

text \<open>
  The file holds the logical screen size and the headers of the pages up to \<open>k\<close>, as it
  does when Open has scanned it.
\<close>

definition headers_in_file :: "GIFinfo \<Rightarrow> byte list \<Rightarrow> nat \<Rightarrow> bool" where
  "headers_in_file info c k =
     (10 \<le> length c \<and>
      k < length (image_descriptor_offsets info) \<and>
      k < length (graphic_control_extension_offsets info) \<and>
      list_all (\<lambda>j. graphic_control_extension_offsets info ! j + 2 \<le> length c \<and>
                    image_descriptor_offsets info ! j + 8 \<le> length c) [0..<Suc k])"

text \<open>
  A file of three pages on a logical canvas of 2 by 2: every page covers the canvas, page 1
  has the disposal "restore to background", pages 0 and 2 have "leave". The offsets are
  those that Open records for it.
\<close>

definition three_pages :: "byte list" where
  "three_pages =
    [0x47, 0x49, 0x46, 0x38, 0x39, 0x61, 0x02, 0x00, 0x02, 0x00, 0x80, 0x00, 0x00,
     0x00, 0x00, 0x00, 0xFF, 0xFF, 0xFF,
     0x21, 0xF9, 0x04, 0x04, 0x0A, 0x00, 0x00, 0x00,
     0x2C, 0x00, 0x00, 0x00, 0x00, 0x02, 0x00, 0x02, 0x00, 0x00,
     0x08, 0x07, 0x00, 0x01, 0x04, 0x08, 0x00, 0x20, 0x20, 0x00,
     0x21, 0xF9, 0x04, 0x08, 0x0A, 0x00, 0x00, 0x00,
     0x2C, 0x00, 0x00, 0x00, 0x00, 0x02, 0x00, 0x02, 0x00, 0x00,
     0x08, 0x06, 0x00, 0x03, 0x08, 0x0C, 0x10, 0x10, 0x00,
     0x21, 0xF9, 0x04, 0x04, 0x0A, 0x00, 0x00, 0x00,
     0x2C, 0x00, 0x00, 0x00, 0x00, 0x02, 0x00, 0x02, 0x00, 0x00,
     0x08, 0x06, 0x00, 0x01, 0x08, 0x0C, 0x10, 0x10, 0x00,
     0x3B]"

definition three_pages_info :: GIFinfo where
  "three_pages_info =
     \<lparr>read = True, global_color_table_offset = 13, global_color_table_size = 2,
      background_color = 0, application_extension_offsets = [],
      comment_extension_offsets = [],
      graphic_control_extension_offsets = [21, 49, 76],
      image_descriptor_offsets = [28, 56, 83]\<rparr>"

definition three_pages_io :: gif_io where
  "three_pages_io = \<lparr>handle = \<lparr>content = three_pages, pos = 0\<rparr>, calls = []\<rparr>"

definition mock_externals :: gif_externals where
  "mock_externals =
     \<lparr>FreeImage_Allocate_ok = (\<lambda>w h b. 0 < w \<and> 0 < h),
      Load_frame = (\<lambda>h page flags.
        (Some \<lparr>dib_width = 2, dib_height = 2, dib_bpp = 8, FrameTime = Some 100, drawn = []\<rparr>, h))\<rparr>"

definition zero_locals :: load_locals where
  "zero_locals =
     \<lparr>loc_packed = 0, loc_have_transparent = False, loc_disposal_method = 0, loc_left = 0,
      loc_top = 0, loc_width = 0, loc_height = 0, loc_logicalwidth = 0,
      loc_logicalheight = 0, loc_background = (0, 0, 0)\<rparr>"

text \<open>
  The keyframe nearest to page \<open>k\<close> among the pages before it, if there is one, and the
  page the drawing starts from: the nearest keyframe, the page after it when the keyframe
  is disposed of by restoring the background, and page 0 when no page before \<open>k\<close> is a
  keyframe.
\<close>

definition nearest_keyframe :: "GIFinfo \<Rightarrow> byte list \<Rightarrow> nat \<Rightarrow> nat option" where
  "nearest_keyframe info c k =
     (case filter (keyframe info c) (rev [0..<k]) of [] \<Rightarrow> None | j # js \<Rightarrow> Some j)"

definition playback_start :: "GIFinfo \<Rightarrow> byte list \<Rightarrow> nat \<Rightarrow> nat" where
  "playback_start info c k =
     (case nearest_keyframe info c k of
        None \<Rightarrow> 0
      | Some j \<Rightarrow> if page_disposal info c j = GIF_DISPOSAL_BACKGROUND then j + 1 else j)"

text \<open>
  The pages from the start on whose image data is needed for page \<open>k\<close>: page \<open>k\<close> itself,
  and every page that is left in place when the next one is drawn.
\<close>

definition page_needed :: "GIFinfo \<Rightarrow> byte list \<Rightarrow> nat \<Rightarrow> nat \<Rightarrow> bool" where
  "page_needed info c k p =
     (p = k \<or> (page_disposal info c p \<noteq> GIF_DISPOSAL_PREVIOUS \<and>
               page_disposal info c p \<noteq> GIF_DISPOSAL_BACKGROUND))"

text \<open>
  A file of four pages on a logical canvas of 2 by 2, all with the disposal "leave" and no
  transparent colour: pages 0, 1 and 3 cover the canvas, page 2 covers its right column.
  The offsets are those that Open records for it.
\<close>

definition four_pages :: "byte list" where
  "four_pages =
    [0x47, 0x49, 0x46, 0x38, 0x39, 0x61, 0x02, 0x00, 0x02, 0x00, 0x80, 0x00, 0x00,
     0x00, 0x00, 0x00, 0xFF, 0xFF, 0xFF,
     0x21, 0xF9, 0x04, 0x04, 0x0A, 0x00, 0x00, 0x00,
     0x2C, 0x00, 0x00, 0x00, 0x00, 0x02, 0x00, 0x02, 0x00, 0x00,
     0x08, 0x07, 0x00, 0x01, 0x04, 0x08, 0x00, 0x20, 0x20, 0x00,
     0x21, 0xF9, 0x04, 0x04, 0x0A, 0x00, 0x00, 0x00,
     0x2C, 0x00, 0x00, 0x00, 0x00, 0x02, 0x00, 0x02, 0x00, 0x00,
     0x08, 0x06, 0x00, 0x03, 0x08, 0x0C, 0x10, 0x10, 0x00,
     0x21, 0xF9, 0x04, 0x04, 0x0A, 0x00, 0x00, 0x00,
     0x2C, 0x01, 0x00, 0x00, 0x00, 0x01, 0x00, 0x02, 0x00, 0x00,
     0x08, 0x05, 0x00, 0x01, 0x04, 0x08, 0x08, 0x00,
     0x21, 0xF9, 0x04, 0x04, 0x0A, 0x00, 0x00, 0x00,
     0x2C, 0x00, 0x00, 0x00, 0x00, 0x02, 0x00, 0x02, 0x00, 0x00,
     0x08, 0x06, 0x00, 0x01, 0x08, 0x0C, 0x10, 0x10, 0x00,
     0x3B]"

definition four_pages_info :: GIFinfo where
  "four_pages_info =
     \<lparr>read = True, global_color_table_offset = 13, global_color_table_size = 2,
      background_color = 0, application_extension_offsets = [],
      comment_extension_offsets = [],
      graphic_control_extension_offsets = [21, 49, 76, 102],
      image_descriptor_offsets = [28, 56, 83, 109]\<rparr>"

definition four_pages_io :: gif_io where
  "four_pages_io = \<lparr>handle = \<lparr>content = four_pages, pos = 0\<rparr>, calls = []\<rparr>"

section \<open>BMP: the palette of an OS/2 2.x bitmap (PluginBMP.cpp, LoadOS22XBMP)\<close>

record FIRGBA8 =
  red :: byte
  green :: byte
  blue :: byte
  alpha :: byte

text \<open>
  Modelled from the spec: CalculateUsedPaletteEntries of Utilities.h, which is not among
  the sources. The spec, 3: an "optional indexed-color palette (ordered sequence of RGB[A]
  entries, size \<open>\<le> 2^bpp\<close>)"; the function gives \<open>2^bit_count\<close> entries for the
  palettized depths 1 to 8 and none otherwise.
\<close>

definition CalculateUsedPaletteEntries :: "nat \<Rightarrow> 32 word" where
  "CalculateUsedPaletteEntries bit_count =
     (if 1 \<le> bit_count \<and> bit_count \<le> 8 then push_bit bit_count 1 else 0)"

text \<open>
  \<open>sizeof(BITMAPFILEHEADER)\<close>: the structure is declared in PluginBMP.cpp under
  \<open>#pragma pack(1)\<close>, two bytes, four, two, two and four.
\<close>

definition sizeof_BITMAPFILEHEADER :: nat where
  "sizeof_BITMAPFILEHEADER = 14"

text \<open>
  \<open>if ((used_colors == 0) || (used_colors > CalculateUsedPaletteEntries(bit_count)))
  used_colors = CalculateUsedPaletteEntries(bit_count);\<close>
\<close>

definition os2_used_colors :: "32 word \<Rightarrow> nat \<Rightarrow> 32 word" where
  "os2_used_colors biClrUsed bit_count =
     (if biClrUsed = 0 \<or> biClrUsed > CalculateUsedPaletteEntries bit_count
      then CalculateUsedPaletteEntries bit_count else biClrUsed)"

text \<open>
  \<open>unsigned pal_size = (bitmap_bits_offset - sizeof(BITMAPFILEHEADER) - bih.biSize) / used_colors;\<close>
  The operands are unsigned and \<open>sizeof\<close> is a \<open>size_t\<close>: the subtraction and the division
  are carried out in 64 bits and the quotient is cut to 32.
\<close>

definition os2_pal_size :: "32 word \<Rightarrow> 32 word \<Rightarrow> 32 word \<Rightarrow> 32 word" where
  "os2_pal_size bitmap_bits_offset biSize used_colors =
     ucast (((ucast bitmap_bits_offset :: 64 word) - of_nat sizeof_BITMAPFILEHEADER - ucast biSize)
              div ucast used_colors)"

text \<open>
  One round of either palette loop: an entry of \<open>entry_size\<close> bytes is read into a local
  FILE_BGRA or FILE_BGR (bytes b, g, r and, for FILE_BGRA, a, in this order; the local is
  declared without a value, \<open>junk\<close> is what it holds before the read), and its r, g and b
  are stored in \<open>pal[count]\<close>. The fourth byte of a FILE_BGRA is not stored.
\<close>

definition os2_palette_entry ::
  "nat \<Rightarrow> byte list \<Rightarrow> FIRGBA8 list \<times> fi_stream \<Rightarrow> nat \<Rightarrow> FIRGBA8 list \<times> fi_stream" where
  "os2_palette_entry entry_size junk ps cnt =
     (let (pal, s) = ps;
          (n, bytes, s1) = read_proc s entry_size 1;
          bgr = fill_buffer junk bytes
      in (pal[cnt := (pal ! cnt)\<lparr>red := bgr ! 2, green := bgr ! 1, blue := bgr ! 0\<rparr>], s1))"

text \<open>
  Lines 714 to 742 of LoadOS22XBMP for the depths 1, 4 and 8: the entry size is worked out,
  the stream is positioned after the headers, and the palette is read with entries of four
  bytes, of three bytes, or not at all.
\<close>

definition LoadOS22XBMP_palette ::
  "fi_stream \<Rightarrow> 32 word \<Rightarrow> 32 word \<Rightarrow> 32 word \<Rightarrow> nat \<Rightarrow> FIRGBA8 list \<Rightarrow> byte list
     \<Rightarrow> FIRGBA8 list \<times> fi_stream" where
  "LoadOS22XBMP_palette s bitmap_bits_offset biSize biClrUsed bit_count pal junk =
     (let used_colors = os2_used_colors biClrUsed bit_count;
          pal_size = os2_pal_size bitmap_bits_offset biSize used_colors;
          s1 = seek_set s (sizeof_BITMAPFILEHEADER + unat biSize)
      in if pal_size = 4 then
           foldl (os2_palette_entry 4 (take 4 junk)) (pal, s1) [0..<unat used_colors]
         else if pal_size = 3 then
           foldl (os2_palette_entry 3 (take 3 junk)) (pal, s1) [0..<unat used_colors]
         else (pal, s1))"

text \<open>
  An OS/2 2.x bitmap of depth 1, 8 pixels wide and 1 high, whose two palette entries take
  four bytes each: blue, green, red and a fourth byte 0xFF. The file header of 14 bytes
  and the information header of 64 bytes (\<open>biSize = 64\<close>, the size that Load sends to
  LoadOS22XBMP) are followed by the palette at offset 78; the pixels start at offset 86.
  The stream stands after the headers.
\<close>

definition os2_example :: fi_stream where
  "os2_example =
     \<lparr>content =
        [0x42, 0x4D, 0x5A, 0, 0, 0, 0, 0, 0, 0, 0x56, 0, 0, 0] @
        [0x40, 0, 0, 0, 8, 0, 0, 0, 1, 0, 0, 0, 1, 0, 1, 0] @ replicate 48 0 @
        [0x10, 0x20, 0x30, 0xFF, 0x40, 0x50, 0x60, 0xFF] @
        [0x55, 0, 0, 0],
      pos = 78\<rparr>"

definition os2_example_pal :: "FIRGBA8 list" where
  "os2_example_pal = replicate 2 \<lparr>red = 0, green = 0, blue = 0, alpha = 0\<rparr>"

section \<open>BMP: run-length coding of 8-bit rows (PluginBMP.cpp)\<close>

definition RLE_COMMAND :: byte where "RLE_COMMAND = 0"
definition RLE_ENDOFLINE :: byte where "RLE_ENDOFLINE = 0"
definition RLE_ENDOFBITMAP :: byte where "RLE_ENDOFBITMAP = 1"
definition RLE_DELTA :: byte where "RLE_DELTA = 2"

subsection \<open>The decoder, LoadPixelDataRLE8\<close>

text \<open>
  The pixel memory of the bitmap is addressed by the scanline a row pointer was taken for
  (\<open>sline = FreeImage_GetScanLine(dib, scanline)\<close>) and the offset from that pointer
  (\<open>sline + bits\<close>). The model records the bytes the decoder stores, by scanline and
  offset, whether or not the offset lies in the \<open>width\<close> bytes of the row.
\<close>

type_synonym pixel_memory = "nat \<Rightarrow> nat \<Rightarrow> byte option"

definition store_bytes :: "pixel_memory \<Rightarrow> nat \<Rightarrow> nat \<Rightarrow> byte list \<Rightarrow> pixel_memory" where
  "store_bytes m y a bs =
     (\<lambda>r i. if r = y \<and> a \<le> i \<and> i < a + length bs then Some (bs ! (i - a)) else m r i)"

text \<open>
  The locals of the decoder. \<open>scanline\<close> and \<open>bits\<close> are C ints that start at 0 and are only
  added to; they are naturals here, and \<open>width - bits\<close> is computed in the integers.
\<close>

record rle8_state =
  r8_io :: fi_stream
  r8_scanline :: nat
  r8_bits :: nat
  r8_dib :: pixel_memory

text \<open>
  \<open>MIN((int)status_byte, width - bits)\<close>, and the same value as the \<open>unsigned size\<close> argument
  of read_proc: a negative count is converted modulo \<open>2^32\<close>.
\<close>

definition rle8_count :: "byte \<Rightarrow> int \<Rightarrow> nat \<Rightarrow> int" where
  "rle8_count status_byte width bits = min (uint status_byte) (width - int bits)"

definition as_unsigned :: "int \<Rightarrow> nat" where
  "as_unsigned n = nat (n mod 2 ^ 32)"

text \<open>
  One round of the loop \<open>for (;;)\<close>. \<open>Inl\<close> is a return, with the value returned; \<open>Inr\<close> is
  the state the next round starts from.
\<close>

definition rle8_round :: "int \<Rightarrow> int \<Rightarrow> rle8_state \<Rightarrow> (bool \<times> rle8_state) + rle8_state" where
  "rle8_round width height st =
     (let (n1, b1, s1) = read_proc (r8_io st) 1 1
      in if n1 \<noteq> 1 then Inl (False, st\<lparr>r8_io := s1\<rparr>)
         else if b1 ! 0 = RLE_COMMAND then
           (let (n2, b2, s2) = read_proc s1 1 1
            in if n2 \<noteq> 1 then Inl (False, st\<lparr>r8_io := s2\<rparr>)
               else if b2 ! 0 = RLE_ENDOFLINE then
                 Inr (st\<lparr>r8_io := s2, r8_bits := 0, r8_scanline := r8_scanline st + 1\<rparr>)
               else if b2 ! 0 = RLE_ENDOFBITMAP then Inl (True, st\<lparr>r8_io := s2\<rparr>)
               else if b2 ! 0 = RLE_DELTA then
                 (let (n3, b3, s3) = read_proc s2 1 1
                  in if n3 \<noteq> 1 then Inl (False, st\<lparr>r8_io := s3\<rparr>)
                     else
                       (let (n4, b4, s4) = read_proc s3 1 1
                        in if n4 \<noteq> 1 then Inl (False, st\<lparr>r8_io := s4\<rparr>)
                           else Inr (st\<lparr>r8_io := s4,
                                        r8_bits := r8_bits st + unat (b3 ! 0),
                                        r8_scanline := r8_scanline st + unat (b4 ! 0)\<rparr>)))
               else if int (r8_scanline st) \<ge> abs height then Inl (True, st\<lparr>r8_io := s2\<rparr>)
               else
                 (let status_byte = b2 ! 0;
                      count = rle8_count status_byte width (r8_bits st);
                      (n3, b3, s3) = read_proc s2 (as_unsigned count) 1;
                      dib1 = store_bytes (r8_dib st) (r8_scanline st) (r8_bits st) b3
                  in if n3 \<noteq> 1 then Inl (False, st\<lparr>r8_io := s3, r8_dib := dib1\<rparr>)
                     else if status_byte AND 1 = 1 then
                       (let (n4, b4, s4) = read_proc s3 1 1
                        in if n4 \<noteq> 1 then Inl (False, st\<lparr>r8_io := s4, r8_dib := dib1\<rparr>)
                           else Inr (st\<lparr>r8_io := s4, r8_dib := dib1,
                                        r8_bits := r8_bits st + unat status_byte\<rparr>))
                     else Inr (st\<lparr>r8_io := s3, r8_dib := dib1,
                                  r8_bits := r8_bits st + unat status_byte\<rparr>)))
         else if int (r8_scanline st) \<ge> abs height then Inl (True, st\<lparr>r8_io := s1\<rparr>)
         else
           (let status_byte = b1 ! 0;
                count = rle8_count status_byte width (r8_bits st);
                (n2, b2, s2) = read_proc s1 1 1
            in if n2 \<noteq> 1 then Inl (False, st\<lparr>r8_io := s2\<rparr>)
               else Inr (st\<lparr>r8_io := s2,
                            r8_dib := store_bytes (r8_dib st) (r8_scanline st) (r8_bits st)
                                        (replicate (nat count) (b2 ! 0)),
                            r8_bits := r8_bits st + nat count\<rparr>)))"

definition rle8_left :: "rle8_state \<Rightarrow> nat" where
  "rle8_left st = length (content (r8_io st)) - pos (r8_io st)"

lemma read_proc_one:
  assumes "read_proc s 1 1 = (n, b, s1)" and "n = 1"
  shows "length (content s1) - pos s1 < length (content s) - pos s"
    and "content s1 = content s" and "pos s1 = pos s + 1" and "pos s < length (content s)"
  using assms by (auto simp: read_proc_def Let_def min_def split: if_splits)

lemma read_proc_left:
  assumes "read_proc s sz cnt = (n, b, s1)"
  shows "length (content s1) - pos s1 \<le> length (content s) - pos s"
  using assms by (auto simp: read_proc_def Let_def)

lemma rle8_round_left:
  assumes "rle8_round width height st = Inr st1"
  shows "rle8_left st1 < rle8_left st"
proof -
  obtain n1 b1 s1 where r1: "read_proc (r8_io st) 1 1 = (n1, b1, s1)"
    by (cases "read_proc (r8_io st) 1 1")
  have n1: "n1 = 1" using assms r1 by (auto simp: rle8_round_def split: if_splits)
  note one = read_proc_one(1) [OF r1 n1]
  have "length (content (r8_io st1)) - pos (r8_io st1) \<le> length (content s1) - pos s1"
    using assms r1 n1
    by (auto simp: rle8_round_def Let_def split: if_splits prod.splits
        dest!: read_proc_left)
  then show ?thesis using one by (simp add: rle8_left_def)
qed

function rle8_rounds :: "int \<Rightarrow> int \<Rightarrow> rle8_state \<Rightarrow> bool \<times> rle8_state" where
  "rle8_rounds width height st =
     (case rle8_round width height st of
        Inl r \<Rightarrow> r
      | Inr st1 \<Rightarrow> rle8_rounds width height st1)"
  by pat_completeness auto
termination
  by (relation "measure (\<lambda>(width, height, st). rle8_left st)")
    (auto simp: rle8_round_left)

declare rle8_rounds.simps [simp del]

text \<open>
  LoadPixelDataRLE8: the value returned, and the state it returns in (the stream and the
  bytes stored).
\<close>

definition LoadPixelDataRLE8 :: "fi_stream \<Rightarrow> int \<Rightarrow> int \<Rightarrow> bool \<times> rle8_state" where
  "LoadPixelDataRLE8 io width height =
     rle8_rounds width height \<lparr>r8_io = io, r8_scanline = 0, r8_bits = 0, r8_dib = (\<lambda>r i. None)\<rparr>"

subsection \<open>The encoder, RLEEncodeLine\<close>

text \<open>
  The target buffer is written from its start without gaps, except that the pad byte after
  a pool of odd length is skipped (\<open>target_pos++\<close>): \<open>target\<close> is the list of bytes up to
  \<open>target_pos\<close>, and \<open>old\<close> is what the buffer held before the call, which is what a skipped
  position keeps. \<open>buffer\<close> is the pool of literal bytes, \<open>buffer_size\<close> its length.
\<close>

text \<open>The \<open>switch (buffer_size)\<close> that writes the pool before a run and at the end of the line.\<close>

definition flush_pool :: "(nat \<Rightarrow> byte) \<Rightarrow> byte list \<Rightarrow> byte list \<Rightarrow> byte list" where
  "flush_pool old buffer target =
     (if length buffer = 0 then target
      else if length buffer = unat RLE_DELTA then
        target @ [1, buffer ! 0, 1, buffer ! 1]
      else if length buffer = unat RLE_ENDOFBITMAP then
        target @ [of_nat (length buffer), buffer ! 0]
      else
        (let t1 = target @ [RLE_COMMAND, of_nat (length buffer)] @ buffer
         in if length buffer mod 2 = 1 then t1 @ [old (length t1)] else t1))"

text \<open>\<open>if (buffer_size == 254) { ... buffer_size = 0; }\<close>\<close>

definition flush_full :: "byte list \<times> byte list \<Rightarrow> byte list \<times> byte list" where
  "flush_full tb =
     (let (target, buffer) = tb
      in if length buffer = 254 then
           (target @ [RLE_COMMAND, of_nat (length buffer)] @ buffer, [])
         else (target, buffer))"

text \<open>The body of \<open>for (int k = 0; k < (j - i) + 1; ++k)\<close>.\<close>

definition pool_byte :: "byte list \<Rightarrow> nat \<Rightarrow> byte list \<times> byte list \<Rightarrow> nat \<Rightarrow> byte list \<times> byte list" where
  "pool_byte source i tb k = flush_full (fst tb, snd tb @ [source ! (i + k)])"

text \<open>\<open>while ((j < size - 1) && (j < jmax) && (source[j] == source[j + 1])) ++j;\<close>\<close>

function run_end :: "byte list \<Rightarrow> nat \<Rightarrow> nat \<Rightarrow> nat \<Rightarrow> nat" where
  "run_end source size' jmax j =
     (if j < size' - 1 \<and> j < jmax \<and> source ! j = source ! (j + 1)
      then run_end source size' jmax (j + 1) else j)"
  by pat_completeness auto
termination
  by (relation "measure (\<lambda>(source, size', jmax, j). size' - j)") auto

declare run_end.simps [simp del]

lemma run_end_ge: "j \<le> run_end source size' jmax j"
proof (induction source size' jmax j rule: run_end.induct)
  case (1 source size' jmax j)
  show ?case
  proof (cases "j < size' - 1 \<and> j < jmax \<and> source ! j = source ! (j + 1)")
    case True
    then have "run_end source size' jmax j = run_end source size' jmax (j + 1)"
      by (subst run_end.simps) simp
    with 1 [OF True] show ?thesis by simp
  next
    case False
    then show ?thesis by (subst run_end.simps) auto
  qed
qed

text \<open>
  The loop \<open>for (int i = 0; i < size; ++i)\<close> from index \<open>i\<close> on, and what follows it: the
  last pool is written, then the end-of-line marker. The result is the target up to the
  position returned.
\<close>

function encode_from ::
  "(nat \<Rightarrow> byte) \<Rightarrow> byte list \<Rightarrow> nat \<Rightarrow> nat \<Rightarrow> byte list \<Rightarrow> byte list \<Rightarrow> byte list" where
  "encode_from old source size' i buffer target =
     (if i < size' then
        (if i < size' - 1 \<and> source ! i = source ! (i + 1) then
           (let j = run_end source size' (254 + i) (i + 1);
                tb = (if (j - i) + 1 > 3 then
                        (flush_pool old buffer target @ [of_nat ((j - i) + 1), source ! i], [])
                      else foldl (pool_byte source i) (target, buffer) [0..<(j - i) + 1]);
                tb1 = flush_full tb
            in encode_from old source size' (j + 1) (snd tb1) (fst tb1))
         else
           (let tb1 = flush_full (target, buffer @ [source ! i])
            in encode_from old source size' (i + 1) (snd tb1) (fst tb1)))
      else flush_pool old buffer target @ [RLE_COMMAND, RLE_ENDOFLINE])"
  by pat_completeness auto
termination
proof (relation "measure (\<lambda>(old, source, size', i, buffer, target). size' - i)")
  show "wf (measure (\<lambda>(old, source, size', i, buffer, target). size' - i))" by simp
next
  fix old :: "nat \<Rightarrow> byte" and source :: "byte list" and size' i :: nat
    and buffer target :: "byte list" and j tb tb1
  assume "i < size'" and "j = run_end source size' (254 + i) (i + 1)"
  then show "((old, source, size', j + 1, snd tb1, fst tb1), old, source, size', i, buffer, target)
        \<in> measure (\<lambda>(old, source, size', i, buffer, target). size' - i)"
    using run_end_ge [of "i + 1" source size' "254 + i"] by simp
next
  fix old :: "nat \<Rightarrow> byte" and source :: "byte list" and size' i :: nat
    and buffer target :: "byte list" and tb1
  assume "i < size'"
  then show "((old, source, size', i + 1, snd tb1, fst tb1), old, source, size', i, buffer, target)
        \<in> measure (\<lambda>(old, source, size', i, buffer, target). size' - i)"
    by simp
qed

declare encode_from.simps [simp del]

definition RLEEncodeLine :: "(nat \<Rightarrow> byte) \<Rightarrow> byte list \<Rightarrow> nat \<Rightarrow> byte list" where
  "RLEEncodeLine old source size' = encode_from old source size' 0 [] []"

text \<open>
  The rows as Save writes them with BMP_SAVE_RLE (lines 1388 to 1404): each scanline from 0
  up is encoded into the same buffer and the encoded bytes are written, then the
  end-of-bitmap marker. \<open>old\<close> is the content of the buffer before a row is encoded.
\<close>

fun Save_RLE8 :: "(nat \<Rightarrow> byte) \<Rightarrow> byte list list \<Rightarrow> byte list" where
  "Save_RLE8 old [] = [RLE_COMMAND, RLE_ENDOFBITMAP]"
| "Save_RLE8 old (line # rest) =
     (let out = RLEEncodeLine old line (length line)
      in out @ Save_RLE8 (\<lambda>i. if i < length out then out ! i else old i) rest)"

subsection \<open>Encoded rows, and the bytes of a bitmap\<close>

text \<open>
  \<open>rle_line e d\<close>: the bytes \<open>e\<close> are a sequence of runs (a count from 1 to 255 and a value)
  and of literal blocks (the command byte, a length from 3 to 255, the bytes, and a pad
  byte when the length is odd), and \<open>d\<close> is what they stand for.
\<close>

inductive rle_line :: "byte list \<Rightarrow> byte list \<Rightarrow> bool" where
  rle_nil: "rle_line [] []"
| rle_run: "rle_line e d \<Longrightarrow> 0 < n \<Longrightarrow> n \<le> 255
             \<Longrightarrow> rle_line (of_nat n # v # e) (replicate n v @ d)"
| rle_lit: "rle_line e d \<Longrightarrow> 3 \<le> length l \<Longrightarrow> length l \<le> 255
             \<Longrightarrow> length padding = length l mod 2
             \<Longrightarrow> rle_line (RLE_COMMAND # of_nat (length l) # l @ padding @ e) (l @ d)"

text \<open>
  The invariant of the encoder's loop: the target written so far is an encoded row, and
  what it stands for, followed by the bytes in the pool, is the part of the source that
  has been consumed.
\<close>

definition pool_inv :: "nat \<Rightarrow> byte list \<Rightarrow> byte list \<times> byte list \<Rightarrow> bool" where
  "pool_inv bound consumed tb =
     (\<exists>d. rle_line (fst tb) d \<and> d @ snd tb = consumed \<and> length (snd tb) < bound)"

text \<open>The bytes of the source from \<open>i\<close> to \<open>j\<close> are equal.\<close>

definition same_from :: "byte list \<Rightarrow> nat \<Rightarrow> nat \<Rightarrow> bool" where
  "same_from source i j = (\<forall>k. i \<le> k \<and> k \<le> j \<longrightarrow> source ! k = source ! i)"

text \<open>
  The rows of a bitmap stored from scanline \<open>y\<close> on, and the memory of a bitmap that holds
  these rows and nothing else.
\<close>

fun store_rows :: "nat \<Rightarrow> byte list list \<Rightarrow> pixel_memory \<Rightarrow> pixel_memory" where
  "store_rows y [] m = m"
| "store_rows y (l # ls) m = store_rows (y + 1) ls (store_bytes m y 0 l)"

definition bitmap_bytes :: "byte list list \<Rightarrow> pixel_memory" where
  "bitmap_bytes rows =
     (\<lambda>y x. if y < length rows \<and> x < length (rows ! y) then Some (rows ! y ! x) else None)"

text \<open>
  A stream whose first literal block declares three bytes for a row of two pixels, followed
  by a second literal block.
\<close>

definition overlong_literals :: "byte list" where
  "overlong_literals = [0, 3, 0xAA, 0xBB, 0xCC, 0, 3, 1, 2, 3, 4, 5, 6, 7, 8]"

text \<open>
  A buffer of one row of two pixels of 24 bits: six bytes for a width of 2.
\<close>

definition two_rgb_pixels :: "byte list list" where
  "two_rgb_pixels = [[1, 2, 3, 4, 5, 6]]"

section \<open>GIF: the LZW engine (PluginGIF.cpp, class StringTable)\<close>

definition MAX_LZW_CODE :: nat where "MAX_LZW_CODE = 4096"

text \<open>
  The members of StringTable. The C ints that are set to a non-negative value and only
  added to are naturals. \<open>m_partial\<close> is a 32-bit int, held here as its bit pattern,
  a natural below \<open>2^32\<close>. \<open>m_strmap\<close> is the array of \<open>1 << 20\<close> ints, \<open>m_strings\<close> the
  array of strings, both as functions of the index. \<open>m_buffer\<close> is the input buffer with
  the bytes the caller has put in it.
\<close>

record StringTable =
  m_done :: bool
  m_minCodeSize :: nat
  m_clearCode :: nat
  m_endCode :: nat
  m_nextCode :: nat
  m_bpp :: nat
  m_slack :: nat
  m_prefix :: nat
  m_codeSize :: nat
  m_codeMask :: nat
  m_oldCode :: nat
  m_partial :: nat
  m_partialSize :: nat
  firstPixelPassed :: bool
  m_strings :: "nat \<Rightarrow> byte list"
  m_strmap :: "nat \<Rightarrow> int"
  m_buffer :: "byte list"
  m_bufferSize :: nat
  m_bufferPos :: nat
  m_bufferShift :: int

subsection \<open>The bit buffer\<close>

text \<open>
  \<open>m_partial |= x << s\<close> on 32-bit ints: the bits of \<open>x << s\<close> from bit 32 on are lost.
  \<open>m_partial >>= s\<close> shifts the sign bit in. \<open>(uint8_t)m_partial\<close> keeps the low byte.
\<close>

definition or_shl :: "nat \<Rightarrow> nat \<Rightarrow> nat \<Rightarrow> nat" where
  "or_shl partial x s = partial OR ((x * 2 ^ s) mod 2 ^ 32)"

definition shr :: "nat \<Rightarrow> nat \<Rightarrow> nat" where
  "shr partial s =
     (if partial < 2 ^ 31 then partial div 2 ^ s
      else (partial div 2 ^ s + (2 ^ 32 - 2 ^ (32 - s))) mod 2 ^ 32)"

definition low_byte :: "nat \<Rightarrow> byte" where
  "low_byte partial = of_nat partial"

subsection \<open>Construction and initialisation\<close>

text \<open>
  The constructor sets \<open>m_buffer\<close> and \<open>firstPixelPassed\<close>; the strings are empty; every
  other member keeps what the memory held, which is the argument.
\<close>

definition new_StringTable :: "StringTable \<Rightarrow> StringTable" where
  "new_StringTable memory = memory\<lparr>m_buffer := [], firstPixelPassed := False,
                                   m_strings := (\<lambda>i. [])\<rparr>"

definition ClearCompressorTable :: "StringTable \<Rightarrow> StringTable" where
  "ClearCompressorTable st =
     st\<lparr>m_strmap := (\<lambda>i. - 1),
        m_nextCode := m_endCode st + 1,
        m_prefix := 0,
        m_codeSize := m_minCodeSize st + 1\<rparr>"

definition ClearDecompressorTable :: "StringTable \<Rightarrow> StringTable" where
  "ClearDecompressorTable st =
     st\<lparr>m_strings := (\<lambda>i. if i < m_clearCode st then [of_nat i] else m_strings st i),
        m_nextCode := m_endCode st + 1,
        m_codeSize := m_minCodeSize st + 1,
        m_codeMask := 2 ^ (m_minCodeSize st + 1) - 1,
        m_oldCode := MAX_LZW_CODE\<rparr>"

definition Initialize :: "nat \<Rightarrow> StringTable \<Rightarrow> StringTable" where
  "Initialize minCodeSize st =
     ClearDecompressorTable (ClearCompressorTable
       (st\<lparr>m_done := False,
           m_bpp := 8,
           m_minCodeSize := minCodeSize,
           m_clearCode := (if 2 ^ minCodeSize > MAX_LZW_CODE then MAX_LZW_CODE
                           else 2 ^ minCodeSize),
           m_endCode := (if 2 ^ minCodeSize > MAX_LZW_CODE then MAX_LZW_CODE
                         else 2 ^ minCodeSize) + 1,
           m_partial := 0,
           m_partialSize := 0,
           m_bufferSize := 0\<rparr>))"

text \<open>
  FillInputBuffer returns the buffer for the caller to fill with \<open>len\<close> bytes; the model
  takes the bytes.
\<close>

definition FillInputBuffer :: "byte list \<Rightarrow> StringTable \<Rightarrow> StringTable" where
  "FillInputBuffer bytes st =
     st\<lparr>m_buffer := bytes,
        m_bufferSize := length bytes,
        m_bufferPos := 0,
        m_bufferShift := 8 - int (m_bpp st)\<rparr>"

subsection \<open>The compressor\<close>

definition CompressStart :: "nat \<Rightarrow> nat \<Rightarrow> StringTable \<Rightarrow> StringTable" where
  "CompressStart bpp width st =
     ClearCompressorTable
       (st\<lparr>m_bpp := bpp,
           m_slack := (8 - ((width * bpp) mod 8)) mod 8,
           m_partial := or_shl (m_partial st) (m_clearCode st) (m_partialSize st),
           m_partialSize := m_partialSize st + m_codeSize st\<rparr>)"

text \<open>
  \<open>while (m_partialSize >= 8 && bufpos - buf < *len)\<close>: full bytes go to the output while
  there is room. The state is the bit buffer, its size and the output written so far.
\<close>

function grab_bytes :: "nat \<Rightarrow> nat \<times> nat \<times> byte list \<Rightarrow> nat \<times> nat \<times> byte list" where
  "grab_bytes len (partial, partialSize, out) =
     (if partialSize \<ge> 8 \<and> length out < len then
        grab_bytes len (shr partial 8, partialSize - 8, out @ [low_byte partial])
      else (partial, partialSize, out))"
  by pat_completeness auto
termination
  by (relation "measure (\<lambda>(len, partial, partialSize, out). partialSize)") auto

declare grab_bytes.simps [simp del]

text \<open>
  The two loops of CompressEnd: \<open>while (m_partialSize >= 8)\<close> writes the full bytes, and
  \<open>while (m_partialSize > 0)\<close> every byte that holds a bit. \<open>m_partialSize -= 8\<close> ends the
  second loop at zero or below; the natural ends at zero.
\<close>

function full_bytes :: "nat \<times> nat \<times> byte list \<Rightarrow> nat \<times> nat \<times> byte list" where
  "full_bytes (partial, partialSize, out) =
     (if partialSize \<ge> 8 then
        full_bytes (shr partial 8, partialSize - 8, out @ [low_byte partial])
      else (partial, partialSize, out))"
  by pat_completeness auto
termination
  by (relation "measure (\<lambda>(partial, partialSize, out). partialSize)") auto

declare full_bytes.simps [simp del]

function flush_bytes :: "nat \<times> nat \<times> byte list \<Rightarrow> nat \<times> nat \<times> byte list" where
  "flush_bytes (partial, partialSize, out) =
     (if partialSize > 0 then
        flush_bytes (shr partial 8, partialSize - 8, out @ [low_byte partial])
      else (partial, partialSize, out))"
  by pat_completeness auto
termination
  by (relation "measure (\<lambda>(partial, partialSize, out). partialSize)") auto

declare flush_bytes.simps [simp del]

text \<open>The current pixel, \<open>ch & 0x000FF\<close>, and the step to the next pixel.\<close>

definition current_pixel :: "StringTable \<Rightarrow> nat" where
  "current_pixel st =
     (drop_bit (nat (m_bufferShift st)) (unat (m_buffer st ! m_bufferPos st))
        AND (2 ^ m_bpp st - 1)) AND 0xFF"

definition next_pixel :: "StringTable \<Rightarrow> StringTable" where
  "next_pixel st =
     (if m_bufferShift st > 0
         \<and> \<not> (m_bufferPos st + 1 = m_bufferSize st \<and> m_bufferShift st \<le> int (m_slack st))
      then st\<lparr>m_bufferShift := m_bufferShift st - int (m_bpp st)\<rparr>
      else st\<lparr>m_bufferPos := m_bufferPos st + 1, m_bufferShift := 8 - int (m_bpp st)\<rparr>)"

text \<open>
  The branch of Compress for a pixel that does not extend the prefix: the code of the
  prefix goes out, the table gets the new string, and the table restarts when it is full.
\<close>

definition emit_prefix :: "nat \<Rightarrow> nat \<Rightarrow> nat \<Rightarrow> StringTable \<times> byte list \<Rightarrow> StringTable \<times> byte list" where
  "emit_prefix len nextprefix ch sto =
     (let (st, out) = sto;
          (partial, partialSize, out1) =
             grab_bytes len (or_shl (m_partial st) (m_prefix st) (m_partialSize st),
                             m_partialSize st + m_codeSize st, out);
          st1 = st\<lparr>m_partial := partial, m_partialSize := partialSize,
                   m_strmap := (m_strmap st)(nextprefix := int (m_nextCode st))\<rparr>;
          st2 = (if m_nextCode st1 = 2 ^ m_codeSize st1
                 then st1\<lparr>m_codeSize := m_codeSize st1 + 1\<rparr> else st1);
          st3 = st2\<lparr>m_nextCode := m_nextCode st2 + 1\<rparr>;
          st4 = (if m_nextCode st3 = MAX_LZW_CODE
                 then ClearCompressorTable
                        (st3\<lparr>m_partial := or_shl (m_partial st3) (m_clearCode st3) (m_partialSize st3),
                             m_partialSize := m_partialSize st3 + m_codeSize st3\<rparr>)
                 else st3)
      in (st4\<lparr>m_prefix := ch\<rparr>, out1))"

text \<open>
  One round of the loop of Compress. \<open>Inl\<close> is the return when the output buffer is full.
\<close>

definition Compress_pixel ::
  "nat \<Rightarrow> StringTable \<times> byte list \<Rightarrow> (bool \<times> byte list \<times> StringTable) + StringTable \<times> byte list" where
  "Compress_pixel len sto =
     (let (st, out) = sto;
          ch = current_pixel st;
          nextprefix = (((m_prefix st * 2 ^ 8) AND 0xFFF00) + ch);
          (st1, out1) =
            (if firstPixelPassed st then
               (if m_strmap st nextprefix > 0
                then (st\<lparr>m_prefix := nat (m_strmap st nextprefix)\<rparr>, out)
                else emit_prefix len nextprefix ch (st, out))
             else (st\<lparr>firstPixelPassed := True, m_prefix := ch\<rparr>, out));
          st2 = next_pixel st1
      in if length out1 = len then Inl (True, out1, st2) else Inr (st2, out1))"

partial_function (option) Compress_loop ::
  "nat \<Rightarrow> StringTable \<times> byte list \<Rightarrow> (bool \<times> byte list \<times> StringTable) option" where
  "Compress_loop len sto =
     (if m_bufferPos (fst sto) < m_bufferSize (fst sto) then
        (case Compress_pixel len sto of
           Inl r \<Rightarrow> Some r
         | Inr sto1 \<Rightarrow> Compress_loop len sto1)
      else Some (True, snd sto, (fst sto)\<lparr>m_bufferSize := 0\<rparr>))"

declare Compress_loop.simps [code]

text \<open>
  Compress: the value returned, the bytes written to \<open>buf\<close> (\<open>*len\<close> on return is their
  number), and the engine afterwards. \<open>len\<close> is \<open>*len\<close> on entry, the room in \<open>buf\<close>.
\<close>

definition Compress :: "nat \<Rightarrow> StringTable \<Rightarrow> (bool \<times> byte list \<times> StringTable) option" where
  "Compress len st =
     (if m_bufferSize st = 0 \<or> m_done st then Some (False, [], st)
      else Compress_loop len (st, []))"

text \<open>CompressEnd: the bytes written to \<open>buf\<close>; the value returned is their number.\<close>

definition CompressEnd :: "StringTable \<Rightarrow> byte list" where
  "CompressEnd st =
     (let (partial, partialSize, out) =
            full_bytes (or_shl (m_partial st) (m_prefix st) (m_partialSize st),
                        m_partialSize st + m_codeSize st, []);
          (partial1, partialSize1, out1) =
            flush_bytes (or_shl partial (m_endCode st) partialSize,
                         partialSize + m_codeSize st, out)
      in out1)"

subsection \<open>The decompressor\<close>

text \<open>\<open>m_strings[...][0]\<close>: the first character, and the terminator of an empty string.\<close>

definition first_char :: "byte list \<Rightarrow> byte" where
  "first_char s = (if s = [] then 0 else hd s)"

text \<open>"add new string to string table, if not the first pass since a clear code"\<close>

definition add_string :: "nat \<Rightarrow> StringTable \<Rightarrow> StringTable" where
  "add_string code st =
     (if m_oldCode st \<noteq> MAX_LZW_CODE \<and> m_nextCode st < MAX_LZW_CODE then
        st\<lparr>m_strings := (m_strings st)
              (m_nextCode st := m_strings st (m_oldCode st)
                 @ [first_char (m_strings st (if code = m_nextCode st then m_oldCode st
                                             else code))])\<rparr>
      else st)"

text \<open>
  "increment the next highest valid code, add a bit to the mask if we need to increase
  the code size", and \<open>m_oldCode = code\<close>.
\<close>

definition advance_code :: "nat \<Rightarrow> StringTable \<Rightarrow> StringTable" where
  "advance_code code st =
     (if m_oldCode st \<noteq> MAX_LZW_CODE \<and> m_nextCode st < MAX_LZW_CODE then
        (if m_nextCode st + 1 < MAX_LZW_CODE then
           (if (m_nextCode st + 1) AND m_codeMask st = 0 then
              st\<lparr>m_nextCode := m_nextCode st + 1,
                 m_codeSize := m_codeSize st + 1,
                 m_codeMask := m_codeMask st OR (m_nextCode st + 1)\<rparr>
            else st\<lparr>m_nextCode := m_nextCode st + 1\<rparr>)
         else st\<lparr>m_nextCode := m_nextCode st + 1\<rparr>)
      else st)\<lparr>m_oldCode := code\<rparr>"

text \<open>
  The two loops of Decompress as one function of the place in them: \<open>in_while\<close> is the
  test of \<open>while (m_partialSize >= m_codeSize)\<close>, otherwise the test of the \<open>for\<close> over
  the input buffer (the \<open>m_bufferPos++\<close> of the \<open>for\<close> is done when the \<open>while\<close> ends).
  \<open>out\<close> is what has been written to \<open>buf\<close>.
\<close>

partial_function (option) Decompress_loop ::
  "bool \<Rightarrow> nat \<Rightarrow> StringTable \<Rightarrow> byte list \<Rightarrow> (bool \<times> byte list \<times> StringTable) option" where
  "Decompress_loop in_while len st out =
     (if in_while then
        (if m_partialSize st \<ge> m_codeSize st then
           (let code = m_partial st AND m_codeMask st;
                st1 = st\<lparr>m_partial := shr (m_partial st) (m_codeSize st),
                         m_partialSize := m_partialSize st - m_codeSize st\<rparr>
            in if code > m_nextCode st1 \<or> code = m_endCode st1 then
                 Some (True, out, st1\<lparr>m_done := True\<rparr>)
               else if code = m_clearCode st1 then
                 Decompress_loop True len (ClearDecompressorTable st1) out
               else
                 (let st2 = add_string code st1
                  in if length (m_strings st2 code) > len - length out then
                       Some (True, out,
                             st2\<lparr>m_partial := ((m_partial st2 * 2 ^ m_codeSize st2) mod 2 ^ 32) OR code,
                                 m_partialSize := m_partialSize st2 + m_codeSize st2,
                                 m_bufferPos := m_bufferPos st2 + 1\<rparr>)
                     else
                       Decompress_loop True len (advance_code code st2)
                         (out @ m_strings st2 code)))
         else Decompress_loop False len (st\<lparr>m_bufferPos := m_bufferPos st + 1\<rparr>) out)
      else
        (if m_bufferPos st < m_bufferSize st then
           Decompress_loop True len
             (st\<lparr>m_partial := or_shl (m_partial st) (unat (m_buffer st ! m_bufferPos st))
                                (m_partialSize st),
                 m_partialSize := m_partialSize st + 8\<rparr>) out
         else Some (True, out, st\<lparr>m_bufferSize := 0\<rparr>)))"

declare Decompress_loop.simps [code]

text \<open>
  Decompress: the value returned, the bytes written to \<open>buf\<close> (\<open>*len\<close> on return is their
  number), and the engine afterwards. \<open>len\<close> is \<open>*len\<close> on entry, the room in \<open>buf\<close>.
\<close>

definition Decompress :: "nat \<Rightarrow> StringTable \<Rightarrow> (bool \<times> byte list \<times> StringTable) option" where
  "Decompress len st =
     (if m_bufferSize st = 0 \<or> m_done st then Some (False, [], st)
      else Decompress_loop False len st [])"

subsection \<open>Repeated calls\<close>

text \<open>
  \<open>while (stringtable->Decompress(buf, &size)) { ...; size = sizeof(buf); }\<close> of Load:
  Decompress is called with the same room until it returns false; \<open>got\<close> is what the calls
  have written.
\<close>

partial_function (option) Decompress_calls ::
  "nat \<Rightarrow> StringTable \<Rightarrow> byte list \<Rightarrow> (byte list \<times> StringTable) option" where
  "Decompress_calls len st got =
     (case Decompress len st of
        None \<Rightarrow> None
      | Some (r, out, st1) \<Rightarrow>
          if r then Decompress_calls len st1 (got @ out) else Some (got, st1))"

declare Decompress_calls.simps [code]

text \<open>The stream that Compress and CompressEnd write for the three pixels 0, 0, 0 at
  minimum code size 2: the codes 4 (clear), 0, 6, 5 (end) of 3 bits each.\<close>

definition three_zeros :: "byte list" where
  "three_zeros = [0x84, 0x0B]"

text \<open>A memory for the engine to be constructed in, all zero.\<close>

definition zero_memory :: StringTable where
  "zero_memory =
     \<lparr>m_done = False, m_minCodeSize = 0, m_clearCode = 0, m_endCode = 0, m_nextCode = 0,
      m_bpp = 0, m_slack = 0, m_prefix = 0, m_codeSize = 0, m_codeMask = 0, m_oldCode = 0,
      m_partial = 0, m_partialSize = 0, firstPixelPassed = False, m_strings = (\<lambda>i. []),
      m_strmap = (\<lambda>i. 0), m_buffer = [], m_bufferSize = 0, m_bufferPos = 0,
      m_bufferShift = 0\<rparr>"

subsection \<open>Streams of codes\<close>

text \<open>
  The number that a sequence of bytes stands for, the low byte first, and the number that
  a sequence of codes stands for when each is written in its width, the first code in the
  low bits.
\<close>

fun bytes_val :: "byte list \<Rightarrow> nat" where
  "bytes_val [] = 0"
| "bytes_val (b # bs) = unat b + 256 * bytes_val bs"

fun pack :: "(nat \<times> nat) list \<Rightarrow> nat" where
  "pack [] = 0"
| "pack ((c, w) # ts) = c + 2 ^ w * pack ts"

fun code_bits :: "(nat \<times> nat) list \<Rightarrow> nat" where
  "code_bits [] = 0"
| "code_bits ((c, w) # ts) = w + code_bits ts"

text \<open>
  What the decompressor does with one code once it has it, apart from the room in the
  output: the string that goes out and the table afterwards. There is no result for the
  end code and for a code above the next free one.
\<close>

definition dec_step :: "nat \<Rightarrow> StringTable \<Rightarrow> (byte list \<times> StringTable) option" where
  "dec_step code st =
     (if code > m_nextCode st \<or> code = m_endCode st then None
      else if code = m_clearCode st then Some ([], ClearDecompressorTable st)
      else Some (m_strings (add_string code st) code, advance_code code (add_string code st)))"

text \<open>
  The decompressor on a sequence of codes, each of the width the decompressor reads it in:
  the strings that go out, and the table afterwards.
\<close>

fun run_codes :: "StringTable \<Rightarrow> (nat \<times> nat) list \<Rightarrow> (byte list \<times> StringTable) option" where
  "run_codes st [] = Some ([], st)"
| "run_codes st ((c, w) # ts) =
     (if w = m_codeSize st \<and> m_codeMask st = 2 ^ w - 1 \<and> c < 2 ^ w \<and> 0 < w \<and> w \<le> 12 then
        (case dec_step c st of
           None \<Rightarrow> None
         | Some (s, st1) \<Rightarrow>
             (case run_codes st1 ts of
                None \<Rightarrow> None
              | Some (data, st2) \<Rightarrow> Some (s @ data, st2)))
      else None)"

text \<open>The members that the decompressor's table consists of.\<close>

definition tab ::
  "StringTable \<Rightarrow> (nat \<Rightarrow> byte list) \<times> nat \<times> nat \<times> nat \<times> nat \<times> nat \<times> nat \<times> nat" where
  "tab st = (m_strings st, m_nextCode st, m_codeSize st, m_codeMask st, m_oldCode st,
             m_clearCode st, m_endCode st, m_minCodeSize st)"

text \<open>
  The decompressor inside its \<open>while\<close> loop faces the number \<open>V\<close>: the bits in the bit
  buffer followed by the input bytes not yet taken, \<open>avail\<close> bits in all.
\<close>

definition dec_rel :: "StringTable \<Rightarrow> nat \<Rightarrow> nat \<Rightarrow> bool" where
  "dec_rel st V avail =
     (m_bufferSize st = length (m_buffer st) \<and>
      m_bufferPos st < m_bufferSize st \<and>
      m_partial st < 2 ^ m_partialSize st \<and>
      m_partialSize st < 20 \<and>
      V = m_partial st
            + 2 ^ m_partialSize st * bytes_val (drop (Suc (m_bufferPos st)) (m_buffer st)) \<and>
      avail = m_partialSize st + 8 * (m_bufferSize st - Suc (m_bufferPos st)))"

text \<open>
  The strings of the decompressor's table together with the string that it will add when
  the next code comes: the string of the last code followed by \<open>x\<close>, the first pixel
  of the next string.
\<close>

definition pending_table :: "StringTable \<Rightarrow> byte \<Rightarrow> nat \<Rightarrow> byte list" where
  "pending_table g x =
     (if m_oldCode g \<noteq> MAX_LZW_CODE
      then (m_strings g)(m_nextCode g := m_strings g (m_oldCode g) @ [x])
      else m_strings g)"

text \<open>
  The compressor after \<open>i\<close> pixels of the row \<open>S\<close>, at 8 bits per pixel and minimum code
  size \<open>n\<close>, against a decompressor \<open>g\<close> that has read the codes \<open>ts\<close> written so far from
  the state \<open>g0\<close> and has put out \<open>dout\<close>:
  \<^item> \<open>enc_ctl\<close>: the input buffer and the constants;
  \<^item> \<open>enc_bits\<close>: the bytes written and the bit buffer hold the codes written;
  \<^item> \<open>enc_sync\<close>: both are at the same code width, and the compressor is one code ahead;
  \<^item> \<open>enc_tab\<close>: the map of the compressor agrees with the strings of the decompressor,
    and the prefix stands for the pixels taken in and not yet written.
\<close>

definition enc_ctl :: "byte list \<Rightarrow> nat \<Rightarrow> nat \<Rightarrow> StringTable \<Rightarrow> bool" where
  "enc_ctl S n i st =
     (firstPixelPassed st \<and> m_bpp st = 8 \<and> m_bufferShift st = 0 \<and> m_buffer st = S \<and>
      m_bufferSize st = length S \<and> m_bufferPos st = i \<and> \<not> m_done st \<and>
      m_minCodeSize st = n \<and> m_clearCode st = 2 ^ n \<and> m_endCode st = 2 ^ n + 1)"

definition enc_bits :: "nat \<Rightarrow> StringTable \<Rightarrow> byte list \<Rightarrow> (nat \<times> nat) list \<Rightarrow> bool" where
  "enc_bits i st out ts =
     (pack ts = bytes_val out + 2 ^ (8 * length out) * m_partial st \<and>
      code_bits ts = 8 * length out + m_partialSize st \<and>
      m_partial st < 2 ^ m_partialSize st \<and>
      m_partialSize st < 20 \<and>
      code_bits ts \<le> 24 * i)"

definition enc_sync :: "nat \<Rightarrow> StringTable \<Rightarrow> StringTable \<Rightarrow> bool" where
  "enc_sync n st g =
     (m_minCodeSize g = n \<and> m_clearCode g = 2 ^ n \<and> m_endCode g = 2 ^ n + 1 \<and>
      m_codeSize st = m_codeSize g \<and>
      m_codeMask g = 2 ^ m_codeSize g - 1 \<and>
      n < m_codeSize g \<and> m_codeSize g \<le> 12 \<and>
      m_nextCode st = (if m_oldCode g = MAX_LZW_CODE then m_nextCode g else m_nextCode g + 1) \<and>
      m_nextCode st < MAX_LZW_CODE \<and>
      m_nextCode st \<le> 2 ^ m_codeSize g \<and>
      2 ^ n + 2 \<le> m_nextCode g \<and>
      (m_oldCode g = MAX_LZW_CODE \<longrightarrow> m_nextCode g = 2 ^ n + 2 \<and> m_codeSize g = n + 1) \<and>
      (\<forall>c<2 ^ n. m_strings g c = [of_nat c]) \<and>
      (m_oldCode g \<noteq> MAX_LZW_CODE \<longrightarrow> m_strings g (m_oldCode g) \<noteq> []))"

definition enc_tab ::
  "byte list \<Rightarrow> nat \<Rightarrow> nat \<Rightarrow> StringTable \<Rightarrow> StringTable \<Rightarrow> byte list \<Rightarrow> bool" where
  "enc_tab S n i st g dout =
     ((\<forall>key. 0 < m_strmap st key \<longrightarrow>
         key div 256 < nat (m_strmap st key) \<and>
         2 ^ n + 1 < nat (m_strmap st key) \<and>
         nat (m_strmap st key) < m_nextCode st \<and>
         pending_table g (S ! length dout) (nat (m_strmap st key)) =
           pending_table g (S ! length dout) (key div 256) @ [of_nat (key mod 256)]) \<and>
      (m_prefix st < 2 ^ n \<or> (2 ^ n + 1 < m_prefix st \<and> m_prefix st < m_nextCode st)) \<and>
      pending_table g (S ! length dout) (m_prefix st) \<noteq> [] \<and>
      dout @ pending_table g (S ! length dout) (m_prefix st) = take i S)"

definition enc_inv ::
  "byte list \<Rightarrow> nat \<Rightarrow> StringTable \<Rightarrow> nat \<Rightarrow> StringTable \<Rightarrow> byte list \<Rightarrow> (nat \<times> nat) list \<Rightarrow> bool" where
  "enc_inv S n g0 i st out ts =
     (\<exists>g dout. enc_ctl S n i st \<and> enc_bits i st out ts \<and> enc_sync n st g \<and>
        enc_tab S n i st g dout \<and> run_codes g0 ts = Some (dout, g))"

text \<open>A decompressor as Initialize leaves it, for a minimum code size up to 11.\<close>

definition dec_init :: "nat \<Rightarrow> StringTable \<Rightarrow> bool" where
  "dec_init n g =
     (m_minCodeSize g = n \<and> m_clearCode g = 2 ^ n \<and> m_endCode g = 2 ^ n + 1 \<and>
      m_nextCode g = 2 ^ n + 2 \<and> m_codeSize g = n + 1 \<and> m_codeMask g = 2 ^ (n + 1) - 1 \<and>
      m_oldCode g = MAX_LZW_CODE)"

section \<open>Detection: proofs\<close>

lemma read_proc_content: "content (snd (snd (read_proc s sz cnt))) = content s"
  by (simp add: read_proc_def Let_def)

lemma node_Validate_pos: "pos (snd (node_Validate n s)) = pos s"
  by (simp add: node_Validate_def seek_set_def tell_proc_def split: option.splits prod.splits)

lemma node_Validate_same:
  assumes "case validate_proc n of None \<Rightarrow> True | Some v \<Rightarrow> reads_only v"
  shows "snd (node_Validate n s) = s"
proof (cases "validate_proc n")
  case None
  then show ?thesis by (simp add: node_Validate_def)
next
  case (Some v)
  with assms have ro: "content (snd (v s)) = content s"
    by (simp add: reads_only_def)
  obtain ok s1 where v: "v s = (ok, s1)" by (cases "v s")
  with ro have "content s1 = content s" by simp
  then show ?thesis
    using Some v by (simp add: node_Validate_def seek_set_def tell_proc_def)
qed

lemma probe_nodes_pos: "pos (snd (probe_nodes reg s)) = pos s"
proof (induction reg arbitrary: s)
  case Nil
  then show ?case by simp
next
  case (Cons e reg)
  obtain fif node where e: "e = (fif, node)" by (cases e)
  show ?case
  proof (cases node)
    case None
    with e Cons show ?thesis by simp
  next
    case (Some n)
    obtain ok s1 where v: "node_Validate n s = (ok, s1)" by (cases "node_Validate n s")
    have p: "pos s1 = pos s" using node_Validate_pos [of n s] v by simp
    show ?thesis using e Some v p Cons [of s1] Cons [of s] by simp
  qed
qed

lemma FreeImage_ValidateFIF_pos: "pos (snd (FreeImage_ValidateFIF reg fif s)) = pos s"
  by (simp add: FreeImage_ValidateFIF_def node_Validate_pos split: option.splits)

lemma probe_nodes_find:
  assumes "registry_reads_only reg"
  shows "probe_nodes reg s =
          ((case find (accepts s) reg of None \<Rightarrow> FIF_UNKNOWN | Some e \<Rightarrow> fst e), s)"
  using assms
proof (induction reg)
  case Nil
  then show ?case by simp
next
  case (Cons e reg)
  obtain fif node where e: "e = (fif, node)" by (cases e)
  from Cons.prems have rest: "registry_reads_only reg"
    by (simp add: registry_reads_only_def)
  show ?case
  proof (cases node)
    case None
    with e Cons.IH rest show ?thesis by (simp add: accepts_def)
  next
    case (Some n)
    from Cons.prems e Some
    have ro: "case validate_proc n of None \<Rightarrow> True | Some v \<Rightarrow> reads_only v"
      by (simp add: registry_reads_only_def)
    have same: "snd (node_Validate n s) = s" by (rule node_Validate_same [OF ro])
    obtain ok s1 where v: "node_Validate n s = (ok, s1)" by (cases "node_Validate n s")
    with same have s1: "s1 = s" by simp
    show ?thesis using e Some v s1 Cons.IH rest by (simp add: accepts_def)
  qed
qed

lemma reads_only_GIF_Validate: "reads_only GIF_Validate"
  by (simp add: reads_only_def GIF_Validate_def read_proc_def Let_def)

lemma reads_only_BMP_Validate: "reads_only BMP_Validate"
  by (simp add: reads_only_def BMP_Validate_def read_proc_def Let_def)

lemma reads_only_PCX_Validate: "reads_only PCX_Validate"
  by (simp add: reads_only_def PCX_Validate_def pcx_validate_def read_proc_def Let_def)

text \<open>
  Claim C3. Every probe of a codec made during detection (the engine's call of the
  codec's validate predicate), and FreeImage_GetFileTypeFromHandle as a whole, leave the
  read position of the stream where it was before the call.
\<close>

theorem detection_restores_position:
  "pos (snd (node_Validate n s)) = pos s \<and>
   map_option pos (snd (FreeImage_GetFileTypeFromHandle reg (Some s))) = Some (pos s)"
proof
  show "pos (snd (node_Validate n s)) = pos s" by (rule node_Validate_pos)
next
  obtain fif s1 where p: "probe_nodes reg s = (fif, s1)" by (cases "probe_nodes reg s")
  have p1: "pos s1 = pos s" using probe_nodes_pos [of reg s] p by simp
  obtain ok s2 where r: "FreeImage_ValidateFIF reg FIF_RAW s1 = (ok, s2)"
    by (cases "FreeImage_ValidateFIF reg FIF_RAW s1")
  have p2: "pos s2 = pos s1" using FreeImage_ValidateFIF_pos [of reg FIF_RAW s1] r by simp
  show "map_option pos (snd (FreeImage_GetFileTypeFromHandle reg (Some s))) = Some (pos s)"
    using p p1 r p2 by (simp add: FreeImage_GetFileTypeFromHandle_def)
qed

text \<open>
  Claim C4. FreeImage_GetFileTypeFromHandle returns the format of the first entry of the
  registry, in its order, that is registered, enabled and whose probe succeeds on the
  stream; if that format is FIF_TIFF and the probe of FIF_RAW succeeds too, FIF_RAW;
  and FIF_UNKNOWN, as a value, when the handle is null or no entry accepts the stream.
\<close>

theorem detection_first_match:
  assumes "registry_reads_only reg"
  shows "fst (FreeImage_GetFileTypeFromHandle reg None) = FIF_UNKNOWN \<and>
         fst (FreeImage_GetFileTypeFromHandle reg (Some s)) =
           (case find (accepts s) reg of
              None \<Rightarrow> FIF_UNKNOWN
            | Some e \<Rightarrow>
                if fst e = FIF_TIFF \<and> fst (FreeImage_ValidateFIF reg FIF_RAW s)
                then FIF_RAW else fst e)"
proof
  show "fst (FreeImage_GetFileTypeFromHandle reg None) = FIF_UNKNOWN"
    by (simp add: FreeImage_GetFileTypeFromHandle_def)
next
  have p: "probe_nodes reg s =
            ((case find (accepts s) reg of None \<Rightarrow> FIF_UNKNOWN | Some e \<Rightarrow> fst e), s)"
    by (rule probe_nodes_find [OF assms])
  obtain ok s2 where r: "FreeImage_ValidateFIF reg FIF_RAW s = (ok, s2)"
    by (cases "FreeImage_ValidateFIF reg FIF_RAW s")
  show "fst (FreeImage_GetFileTypeFromHandle reg (Some s)) =
           (case find (accepts s) reg of
              None \<Rightarrow> FIF_UNKNOWN
            | Some e \<Rightarrow>
                if fst e = FIF_TIFF \<and> fst (FreeImage_ValidateFIF reg FIF_RAW s)
                then FIF_RAW else fst e)"
    using p r by (simp add: FreeImage_GetFileTypeFromHandle_def split: option.splits)
qed

text \<open>
  A registry with the bitmap, GIF and PCX codecs of the sources, and a stream that
  starts with "GIF89a": it is detected as GIF.
\<close>

theorem detection_first_match_witness:
  "registry_reads_only
     [(FIF_BMP, Some \<lparr>IsEnabled = True, validate_proc = Some BMP_Validate\<rparr>),
      (FIF_PCX, None),
      (FIF_GIF, Some \<lparr>IsEnabled = True, validate_proc = Some GIF_Validate\<rparr>),
      (FIF_PCX, Some \<lparr>IsEnabled = True, validate_proc = Some PCX_Validate\<rparr>)] \<and>
   fst (FreeImage_GetFileTypeFromHandle
     [(FIF_BMP, Some \<lparr>IsEnabled = True, validate_proc = Some BMP_Validate\<rparr>),
      (FIF_PCX, None),
      (FIF_GIF, Some \<lparr>IsEnabled = True, validate_proc = Some GIF_Validate\<rparr>),
      (FIF_PCX, Some \<lparr>IsEnabled = True, validate_proc = Some PCX_Validate\<rparr>)]
     (Some \<lparr>content = [0x47, 0x49, 0x46, 0x38, 0x39, 0x61, 0x01, 0x00], pos = 0\<rparr>)) = FIF_GIF"
proof -
  let ?reg = "[(FIF_BMP, Some \<lparr>IsEnabled = True, validate_proc = Some BMP_Validate\<rparr>),
      (FIF_PCX, None),
      (FIF_GIF, Some \<lparr>IsEnabled = True, validate_proc = Some GIF_Validate\<rparr>),
      (FIF_PCX, Some \<lparr>IsEnabled = True, validate_proc = Some PCX_Validate\<rparr>)]"
  have ro: "registry_reads_only ?reg"
    by (simp add: registry_reads_only_def reads_only_GIF_Validate reads_only_BMP_Validate
        reads_only_PCX_Validate)
  show ?thesis
    using ro detection_first_match [OF ro,
        of "\<lparr>content = [0x47, 0x49, 0x46, 0x38, 0x39, 0x61, 0x01, 0x00], pos = 0\<rparr>"]
    by (simp add: accepts_def node_Validate_def BMP_Validate_def GIF_Validate_def
        read_proc_def fill_buffer_def GIF89a_def GIF87a_def tell_proc_def seek_set_def Let_def)
qed

text \<open>
  Claim C10. pcx_validate returns true exactly when four bytes can be read at the
  current position and byte 0 is 0x0A, byte 1 is at most 5, byte 2 is 0 or 1 and
  byte 3 is 1 or 8. A stream with fewer than four bytes left gives false, as a value.
\<close>

theorem pcx_validate_iff:
  "fst (pcx_validate s) =
     (pos s + 4 \<le> length (content s) \<and>
      content s ! pos s = 0x0A \<and>
      content s ! (pos s + 1) \<le> 5 \<and>
      (content s ! (pos s + 2) = 0 \<or> content s ! (pos s + 2) = 1) \<and>
      (content s ! (pos s + 3) = 1 \<or> content s ! (pos s + 3) = 8))"
proof (cases "pos s + 4 \<le> length (content s)")
  case False
  then have "min 4 (length (content s) - pos s) \<noteq> 4" by simp
  with False show ?thesis
    by (simp add: pcx_validate_def read_proc_def Let_def)
next
  case True
  then have m: "min 4 (length (content s) - pos s) = 4" by simp
  have l: "length (take 4 (drop (pos s) (content s))) = 4" using True by simp
  have f: "fill_buffer [0, 0, 0, 0] (take 4 (drop (pos s) (content s))) =
             take 4 (drop (pos s) (content s))"
    using l by (simp add: fill_buffer_def)
  have n: "\<And>i. i < 4 \<Longrightarrow> take 4 (drop (pos s) (content s)) ! i = content s ! (pos s + i)"
    using True by simp
  show ?thesis
    using True m f n [of 0] n [of 1] n [of 2] n [of 3]
    by (simp add: pcx_validate_def read_proc_def Let_def)
qed

section \<open>GIF Load: proofs\<close>

lemma headers_in_fileD:
  "headers_in_file info c k \<Longrightarrow> j \<le> k \<Longrightarrow>
     graphic_control_extension_offsets info ! j + 2 \<le> length c \<and>
     image_descriptor_offsets info ! j + 8 \<le> length c"
  by (auto simp: headers_in_file_def list_all_iff)

lemma read_byte_at:
  assumes "pos (handle h) < length (content (handle h))"
  shows "fst (read_byte h old) = content (handle h) ! pos (handle h)"
    and "handle (snd (read_byte h old)) = (handle h)\<lparr>pos := pos (handle h) + 1\<rparr>"
proof -
  have m: "min (Suc 0) (length (content (handle h)) - pos (handle h)) = Suc 0"
    using assms by simp
  have t: "take (Suc 0) (drop (pos (handle h)) (content (handle h)))
             = [content (handle h) ! pos (handle h)]"
    using assms by (simp add: take_Suc_conv_app_nth hd_drop_conv_nth take_Suc)
  show "fst (read_byte h old) = content (handle h) ! pos (handle h)"
    using m t by (simp add: read_byte_def io_read_def read_proc_def fill_buffer_def Let_def)
  show "handle (snd (read_byte h old)) = (handle h)\<lparr>pos := pos (handle h) + 1\<rparr>"
    using m by (simp add: read_byte_def io_read_def read_proc_def Let_def)
qed

lemma read_short_at:
  assumes "pos (handle h) + 2 \<le> length (content (handle h))"
  shows "fst (read_short h old) = short_at (content (handle h)) (pos (handle h))"
    and "handle (snd (read_short h old)) = (handle h)\<lparr>pos := pos (handle h) + 2\<rparr>"
proof -
  let ?c = "content (handle h)" and ?p = "pos (handle h)"
  have m: "min 2 (length ?c - ?p) = 2" using assms by simp
  have t: "take 2 (drop ?p ?c) = [?c ! ?p, ?c ! (?p + 1)]"
  proof -
    have p0: "?p < length ?c" and p1: "Suc ?p < length ?c" using assms by simp_all
    have "drop ?p ?c = ?c ! ?p # drop (Suc ?p) ?c"
      by (rule Cons_nth_drop_Suc [OF p0, symmetric])
    also have "drop (Suc ?p) ?c = ?c ! Suc ?p # drop (Suc (Suc ?p)) ?c"
      by (rule Cons_nth_drop_Suc [OF p1, symmetric])
    finally show ?thesis by (simp add: numeral_2_eq_2)
  qed
  show "fst (read_short h old) = short_at ?c ?p"
    using m t by (simp add: read_short_def io_read_def read_proc_def fill_buffer_def Let_def short_at_def)
  show "handle (snd (read_short h old)) = (handle h)\<lparr>pos := ?p + 2\<rparr>"
    using m by (simp add: read_short_def io_read_def read_proc_def Let_def)
qed

lemma handle_io_seek: "handle (io_seek h off) = (handle h)\<lparr>pos := off\<rparr>"
  by (simp add: io_seek_def seek_set_def)

definition io_at :: "gif_io \<Rightarrow> byte list \<Rightarrow> nat \<Rightarrow> bool" where
  "io_at h c p = (content (handle h) = c \<and> pos (handle h) = p)"

lemma io_at_seek: "content (handle h) = c \<Longrightarrow> io_at (io_seek h off) c off"
  by (simp add: io_at_def handle_io_seek)

lemma io_at_content: "io_at h c p \<Longrightarrow> content (handle h) = c"
  by (simp add: io_at_def)

lemma io_at_read_byte:
  assumes "io_at h c p" and "p < length c"
  shows "fst (read_byte h old) = c ! p \<and> io_at (snd (read_byte h old)) c (p + 1)"
  using assms read_byte_at [of h old] by (simp add: io_at_def)

lemma io_at_read_short:
  assumes "io_at h c p" and "p + 2 \<le> length c"
  shows "fst (read_short h old) = short_at c p \<and> io_at (snd (read_short h old)) c (p + 2)"
  using assms read_short_at [of h old] by (simp add: io_at_def)

lemma scan_page_result:
  assumes c: "content (handle (sc_io st)) = c"
      and g: "graphic_control_extension_offsets info ! s + 2 \<le> length c"
      and d: "image_descriptor_offsets info ! s + 8 \<le> length c"
  shows "fst (scan_page info lw lh e s st) =
           (if s \<noteq> e \<and> short_at c (image_descriptor_offsets info ! s) = 0
                 \<and> short_at c (image_descriptor_offsets info ! s + 2) = 0
                 \<and> short_at c (image_descriptor_offsets info ! s + 4) = lw
                 \<and> short_at c (image_descriptor_offsets info ! s + 6) = lh
            then (if page_disposal info c s = GIF_DISPOSAL_BACKGROUND then BreakAfter
                  else if page_disposal info c s \<noteq> GIF_DISPOSAL_PREVIOUS
                          \<and> \<not> page_transparent info c s then BreakHere
                  else Continue)
            else Continue) \<and>
         content (handle (sc_io (snd (scan_page info lw lh e s st)))) = c \<and>
         map disposal_method (sc_pageinfo (snd (scan_page info lw lh e s st))) =
           (if fst (scan_page info lw lh e s st) = BreakAfter
            then map disposal_method (sc_pageinfo st)
            else map disposal_method (sc_pageinfo st) @ [page_disposal info c s])"
proof -
  let ?G = "graphic_control_extension_offsets info ! s"
  let ?D = "image_descriptor_offsets info ! s"
  define h1 where "h1 = io_seek (sc_io st) (?G + 1)"
  define r2 where "r2 = read_byte h1 (loc_packed (sc_loc st))"
  define h3 where "h3 = io_seek (snd r2) ?D"
  define r4 where "r4 = read_short h3 (loc_left (sc_loc st))"
  define r5 where "r5 = read_short (snd r4) (loc_top (sc_loc st))"
  define r6 where "r6 = read_short (snd r5) (loc_width (sc_loc st))"
  define r7 where "r7 = read_short (snd r6) (loc_height (sc_loc st))"
  have a1: "io_at h1 c (?G + 1)" unfolding h1_def by (rule io_at_seek [OF c])
  have f2: "fst r2 = c ! (?G + 1) \<and> io_at (snd r2) c (?G + 1 + 1)"
    unfolding r2_def using g by (intro io_at_read_byte [OF a1]) simp
  have a3: "io_at h3 c ?D" unfolding h3_def
    using f2 by (intro io_at_seek) (simp add: io_at_def)
  have f4: "fst r4 = short_at c ?D \<and> io_at (snd r4) c (?D + 2)"
    unfolding r4_def using d by (intro io_at_read_short [OF a3]) simp
  have f5: "fst r5 = short_at c (?D + 2) \<and> io_at (snd r5) c (?D + 2 + 2)"
    unfolding r5_def using d f4 by (intro io_at_read_short) simp_all
  have f6: "fst r6 = short_at c (?D + 2 + 2) \<and> io_at (snd r6) c (?D + 2 + 2 + 2)"
    unfolding r6_def using d f5 by (intro io_at_read_short) simp_all
  have f7: "fst r7 = short_at c (?D + 2 + 2 + 2) \<and> io_at (snd r7) c (?D + 2 + 2 + 2 + 2)"
    unfolding r7_def using d f6 by (intro io_at_read_short) simp_all
  have c7: "content (handle (snd r7)) = c" using f7 by (simp add: io_at_def)
  have eq: "scan_page info lw lh e s st =
      (let packed = fst r2;
           have_transparent = (packed AND GIF_PACKED_GCE_HAVETRANS \<noteq> 0);
           disposal = unat (drop_bit 2 (packed AND GIF_PACKED_GCE_DISPOSAL));
           loc1 = (sc_loc st)\<lparr>loc_packed := packed, loc_have_transparent := have_transparent,
                     loc_disposal_method := disposal, loc_left := fst r4, loc_top := fst r5,
                     loc_width := fst r6, loc_height := fst r7\<rparr>;
           pushed = sc_pageinfo st @
                     [\<lparr>disposal_method = disposal, info_left = fst r4, info_top = fst r5,
                       info_width = fst r6, info_height = fst r7\<rparr>];
           st1 = \<lparr>sc_io = snd r7, sc_loc = loc1, sc_pageinfo = pushed\<rparr>
       in if s \<noteq> e then
           (if fst r4 = 0 \<and> fst r5 = 0 \<and> fst r6 = lw \<and> fst r7 = lh then
              (if disposal = GIF_DISPOSAL_BACKGROUND then
                 (BreakAfter, st1\<lparr>sc_pageinfo := butlast pushed\<rparr>)
               else if disposal \<noteq> GIF_DISPOSAL_PREVIOUS then
                 (if \<not> have_transparent then (BreakHere, st1) else (Continue, st1))
               else (Continue, st1))
            else (Continue, st1))
         else (Continue, st1))"
    unfolding r7_def r6_def r5_def r4_def h3_def r2_def h1_def
    by (simp add: scan_page_def Let_def case_prod_beta)
  have e4: "?D + 2 + 2 = ?D + 4" and e6: "?D + 2 + 2 + 2 = ?D + 6" by arith+
  have v2: "fst r2 = c ! (?G + 1)" by (rule conjunct1 [OF f2])
  have v4: "fst r4 = short_at c ?D" by (rule conjunct1 [OF f4])
  have v5: "fst r5 = short_at c (?D + 2)" by (rule conjunct1 [OF f5])
  have v6: "fst r6 = short_at c (?D + 4)" by (rule conjunct1 [OF f6 [unfolded e4]])
  have v7: "fst r7 = short_at c (?D + 6)" by (rule conjunct1 [OF f7 [unfolded e6]])
  show ?thesis
    unfolding eq
    by (simp add: Let_def page_disposal_def page_transparent_def v2 v4 v5 v6 v7 c7)
qed

lemma playback_start_0: "playback_start info c 0 = 0"
  by (simp add: playback_start_def nearest_keyframe_def)

lemma playback_start_Suc:
  "playback_start info c (Suc n) =
     (if keyframe info c n
      then (if page_disposal info c n = GIF_DISPOSAL_BACKGROUND then Suc n else n)
      else playback_start info c n)"
  by (simp add: playback_start_def nearest_keyframe_def)

lemma playback_start_le: "playback_start info c k \<le> k"
  by (induction k) (simp_all add: playback_start_0 playback_start_Suc)

lemma rev_upt_Suc: "start \<le> n \<Longrightarrow> rev [start..<Suc n] = n # rev [start..<n]"
  by simp

text \<open>
  The backward scan from page \<open>s\<close> on: where it stops, and the disposal methods it has
  cached, those of the pages from \<open>s\<close> down to the first page to draw.
\<close>

lemma scan_pages_exact:
  assumes c: "content (handle (sc_io st)) = c"
      and r: "\<And>i. i \<le> s \<Longrightarrow> graphic_control_extension_offsets info ! i + 2 \<le> length c \<and>
                       image_descriptor_offsets info ! i + 8 \<le> length c"
      and sk: "s \<le> k"
  shows "fst (scan_pages info (short_at c 6) (short_at c 8) k s st) =
           (if s = k then playback_start info c k else playback_start info c (Suc s)) \<and>
         map disposal_method
             (sc_pageinfo (snd (scan_pages info (short_at c 6) (short_at c 8) k s st))) =
           map disposal_method (sc_pageinfo st) @
           map (page_disposal info c)
             (rev [fst (scan_pages info (short_at c 6) (short_at c 8) k s st)..<Suc s])"
  using c r sk
proof (induction s arbitrary: st)
  case 0
  have rd: "graphic_control_extension_offsets info ! 0 + 2 \<le> length c \<and>
            image_descriptor_offsets info ! 0 + 8 \<le> length c" using "0.prems"(2) [of 0] by simp
  note sp = scan_page_result [OF "0.prems"(1) conjunct1 [OF rd] conjunct2 [OF rd],
      of "short_at c 6" "short_at c 8" k]
  obtain x st1 where e: "scan_page info (short_at c 6) (short_at c 8) k 0 st = (x, st1)"
    by (cases "scan_page info (short_at c 6) (short_at c 8) k 0 st")
  have kf: "0 \<noteq> k \<Longrightarrow> keyframe info c 0 = (x \<noteq> Continue)"
    using sp e by (auto simp: keyframe_def page_covers_canvas_def split: if_splits)
  have bg: "x = BreakAfter \<Longrightarrow> page_disposal info c 0 = GIF_DISPOSAL_BACKGROUND"
    using sp e by (auto split: if_splits)
  have nbg: "x = BreakHere \<Longrightarrow> page_disposal info c 0 \<noteq> GIF_DISPOSAL_BACKGROUND"
    using sp e by (auto split: if_splits)
  have k0: "0 = k \<Longrightarrow> x = Continue" using sp e by (auto split: if_splits)
  have pi: "map disposal_method (sc_pageinfo st1) =
           (if x = BreakAfter then map disposal_method (sc_pageinfo st)
            else map disposal_method (sc_pageinfo st) @ [page_disposal info c 0])"
    using sp e by simp
  show ?case
  proof (cases x)
    case Continue
    then show ?thesis using e kf pi
      by (cases "0 = k") (simp_all add: playback_start_0 playback_start_Suc)
  next
    case BreakAfter
    then show ?thesis using e kf k0 bg pi
      by (cases "0 = k") (simp_all add: playback_start_0 playback_start_Suc)
  next
    case BreakHere
    then show ?thesis using e kf k0 nbg pi
      by (cases "0 = k") (simp_all add: playback_start_0 playback_start_Suc)
  qed
next
  case (Suc n)
  have rd: "graphic_control_extension_offsets info ! Suc n + 2 \<le> length c \<and>
            image_descriptor_offsets info ! Suc n + 8 \<le> length c"
    using Suc.prems(2) [of "Suc n"] by simp
  note sp = scan_page_result [OF Suc.prems(1) conjunct1 [OF rd] conjunct2 [OF rd],
      of "short_at c 6" "short_at c 8" k]
  obtain x st1 where e: "scan_page info (short_at c 6) (short_at c 8) k (Suc n) st = (x, st1)"
    by (cases "scan_page info (short_at c 6) (short_at c 8) k (Suc n) st")
  have c1: "content (handle (sc_io st1)) = c" using sp e by simp
  have kf: "Suc n \<noteq> k \<Longrightarrow> keyframe info c (Suc n) = (x \<noteq> Continue)"
    using sp e by (auto simp: keyframe_def page_covers_canvas_def split: if_splits)
  have bg: "x = BreakAfter \<Longrightarrow> page_disposal info c (Suc n) = GIF_DISPOSAL_BACKGROUND"
    using sp e by (auto split: if_splits)
  have nbg: "x = BreakHere \<Longrightarrow> page_disposal info c (Suc n) \<noteq> GIF_DISPOSAL_BACKGROUND"
    using sp e by (auto split: if_splits)
  have k0: "Suc n = k \<Longrightarrow> x = Continue" using sp e by (auto split: if_splits)
  have pi: "map disposal_method (sc_pageinfo st1) =
           (if x = BreakAfter then map disposal_method (sc_pageinfo st)
            else map disposal_method (sc_pageinfo st) @ [page_disposal info c (Suc n)])"
    using sp e by simp
  show ?case
  proof (cases x)
    case Continue
    have nk: "n \<le> k" and nne: "n \<noteq> k" using Suc.prems(3) by simp_all
    have rn: "\<And>i. i \<le> n \<Longrightarrow> graphic_control_extension_offsets info ! i + 2 \<le> length c \<and>
                       image_descriptor_offsets info ! i + 8 \<le> length c"
      using Suc.prems(2) by simp
    note ih = Suc.IH [OF c1 rn nk]
    let ?r = "scan_pages info (short_at c 6) (short_at c 8) k n st1"
    have res: "scan_pages info (short_at c 6) (short_at c 8) k (Suc n) st = ?r"
      using e Continue by simp
    have f: "fst ?r = playback_start info c (Suc n)" using ih nne by simp
    have le: "fst ?r \<le> Suc n" unfolding f by (rule playback_start_le)
    have a: "fst ?r = (if Suc n = k then playback_start info c k
                       else playback_start info c (Suc (Suc n)))"
    proof (cases "Suc n = k")
      case True
      then show ?thesis using f by simp
    next
      case False
      then have "\<not> keyframe info c (Suc n)" using kf Continue by simp
      then show ?thesis using f False by (simp add: playback_start_Suc [of info c "Suc n"])
    qed
    have b: "map disposal_method (sc_pageinfo (snd ?r)) =
           map disposal_method (sc_pageinfo st) @
           map (page_disposal info c) (rev [fst ?r..<Suc (Suc n)])"
      using ih pi Continue unfolding rev_upt_Suc [OF le] by simp
    show ?thesis unfolding res using a b by simp
  next
    case BreakAfter
    have ne: "Suc n \<noteq> k" using k0 BreakAfter by auto
    have res: "scan_pages info (short_at c 6) (short_at c 8) k (Suc n) st = (Suc n + 1, st1)"
      using e BreakAfter by simp
    show ?thesis unfolding res using ne kf bg pi BreakAfter
      by (simp add: playback_start_Suc [of info c "Suc n"])
  next
    case BreakHere
    have ne: "Suc n \<noteq> k" using k0 BreakHere by auto
    have res: "scan_pages info (short_at c 6) (short_at c 8) k (Suc n) st = (Suc n, st1)"
      using e BreakHere by simp
    show ?thesis unfolding res using ne kf nbg pi BreakHere
      by (simp add: playback_start_Suc [of info c "Suc n"])
  qed
qed

text \<open>The forward loop decodes the pages that are needed, and no other.\<close>

lemma draw_pages_exact:
  assumes "\<And>p. p \<in> set ps \<Longrightarrow> disposal_method (infos ! (k - p)) = page_disposal info c p"
  shows "dr_decoded (foldl (draw_page ext k infos) d ps) =
           dr_decoded d @ filter (page_needed info c k) ps"
  using assms
proof (induction ps arbitrary: d)
  case Nil
  then show ?case by simp
next
  case (Cons p ps)
  have dp: "disposal_method (infos ! (k - p)) = page_disposal info c p"
    using Cons.prems by simp
  have one: "dr_decoded (draw_page ext k infos d p) =
      dr_decoded d @ (if page_needed info c k p then [p] else [])"
    using dp by (auto simp: draw_page_def page_needed_def Let_def
        split: prod.splits option.splits)
  have "dr_decoded (foldl (draw_page ext k infos) (draw_page ext k infos d p) ps) =
      dr_decoded (draw_page ext k infos d p) @ filter (page_needed info c k) ps"
    by (rule Cons.IH) (use Cons.prems in simp)
  then show ?case unfolding one by simp
qed

lemma cached_disposal:
  assumes m: "map disposal_method infos = map f (rev [start..<Suc k])"
      and p: "start \<le> p" "p \<le> k"
  shows "disposal_method (infos ! (k - p)) = f p"
proof -
  have len: "length infos = Suc k - start"
    using arg_cong [OF m, of length] by (simp del: upt_Suc)
  have i: "k - p < length infos" using p len by simp
  have "disposal_method (infos ! (k - p)) = map disposal_method infos ! (k - p)"
    using i by simp
  also have "\<dots> = f (rev [start..<Suc k] ! (k - p))"
    unfolding m using i len by (simp del: upt_Suc)
  also have "rev [start..<Suc k] ! (k - p) = p"
    using p by (simp add: rev_nth del: upt_Suc)
  finally show ?thesis .
qed

lemma Load_playback_decoded:
  assumes hf: "headers_in_file info (content (handle h)) k"
  shows "snd (snd (Load_playback ext h k info loc)) =
           (if FreeImage_Allocate_ok ext (unat (short_at (content (handle h)) 6))
                 (unat (short_at (content (handle h)) 8)) 32
            then filter (page_needed info (content (handle h)) k)
                   [playback_start info (content (handle h)) k..<Suc k]
            else [])"
proof -
  let ?c = "content (handle h)"
  define h1 where "h1 = io_seek h 6"
  define r2 where "r2 = read_short h1 (loc_logicalwidth loc)"
  define r3 where "r3 = read_short (snd r2) (loc_logicalheight loc)"
  define h5 where "h5 = io_seek (snd r3) (global_color_table_offset info
                                       + unat (background_color info) * 3)"
  define r6 where "r6 = read_byte h5 (fst (loc_background loc))"
  define r7 where "r7 = read_byte (snd r6) (fst (snd (loc_background loc)))"
  define r8 where "r8 = read_byte (snd r7) (snd (snd (loc_background loc)))"
  define h4 where "h4 = (if global_color_table_offset info \<noteq> 0
                \<and> unat (background_color info) < global_color_table_size info
                then snd r8 else snd r3)"
  define sc where "sc = scan_pages info (fst r2) (fst r3) k k
                    \<lparr>sc_io = h4, sc_loc = loc, sc_pageinfo = []\<rparr>"
  have len: "10 \<le> length ?c" using hf by (simp add: headers_in_file_def)
  have a1: "io_at h1 ?c 6" unfolding h1_def by (rule io_at_seek) simp
  have f2: "fst r2 = short_at ?c 6 \<and> io_at (snd r2) ?c (6 + 2)"
    unfolding r2_def using len by (intro io_at_read_short [OF a1]) simp
  have f3: "fst r3 = short_at ?c (6 + 2) \<and> io_at (snd r3) ?c (6 + 2 + 2)"
    unfolding r3_def using len f2 by (intro io_at_read_short) simp_all
  have lw: "fst r2 = short_at ?c 6" using f2 by simp
  have lh: "fst r3 = short_at ?c 8" using f3 by simp
  have c3: "content (handle (snd r3)) = ?c" using f3 by (simp add: io_at_def)
  have rb: "\<And>g old. content (handle (snd (read_byte g old))) = content (handle g)"
    by (simp add: read_byte_def io_read_def read_proc_def Let_def)
  have c8: "content (handle (snd r8)) = ?c"
    unfolding r8_def r7_def r6_def h5_def using c3 by (simp add: rb io_seek_def seek_set_def)
  have c4: "content (handle h4) = ?c" unfolding h4_def using c3 c8 by simp
  have rd: "\<And>i. i \<le> k \<Longrightarrow> graphic_control_extension_offsets info ! i + 2 \<le> length ?c \<and>
                       image_descriptor_offsets info ! i + 8 \<le> length ?c"
    using headers_in_fileD [OF hf] by blast
  have st: "fst sc = playback_start info ?c k \<and>
            map disposal_method (sc_pageinfo (snd sc)) =
              map (page_disposal info ?c) (rev [fst sc..<Suc k])"
    unfolding sc_def lw lh
    using scan_pages_exact [of "\<lparr>sc_io = h4, sc_loc = loc, sc_pageinfo = []\<rparr>" ?c k info k]
      c4 rd by simp
  have dr: "dr_decoded (draw_pages ext k (sc_pageinfo (snd sc)) (fst sc)
              \<lparr>dr_io = sc_io (snd sc), dr_ops = [], dr_decoded = [], dr_delay_time = 0\<rparr>)
          = filter (page_needed info ?c k) [fst sc..<Suc k]"
    unfolding draw_pages_def
    by (subst draw_pages_exact [where info = info and c = ?c])
       (auto intro: cached_disposal [OF conjunct2 [OF st]] simp del: upt_Suc)
  have eq: "snd (snd (Load_playback ext h k info loc)) =
      (if \<not> FreeImage_Allocate_ok ext (unat (fst r2)) (unat (fst r3)) 32 then []
       else dr_decoded (draw_pages ext k (sc_pageinfo (snd sc)) (fst sc)
              \<lparr>dr_io = sc_io (snd sc), dr_ops = [], dr_decoded = [], dr_delay_time = 0\<rparr>))"
    unfolding sc_def h4_def r8_def r7_def r6_def h5_def r3_def r2_def h1_def
    by (simp add: Load_playback_def Let_def case_prod_beta)
  show ?thesis unfolding eq dr using st lw lh by simp
qed

text \<open>
  Claim C9. With an open context, page -1 is loaded as page 0; for a page below -1, and
  for a page at or above the number of image descriptors that Open found, Load returns
  null at once: no call is made on the handle and no page is decoded.
\<close>

theorem Load_page_out_of_range:
  "Load ext h (- 1) flags (Some info) loc = Load ext h 0 flags (Some info) loc \<and>
   (page < - 1 \<or> int (length (image_descriptor_offsets info)) \<le> page
      \<longrightarrow> Load ext h page flags (Some info) loc = (None, h, []))"
  by (auto simp: Load_def Let_def)

theorem Load_page_out_of_range_witness:
  "Load mock_externals three_pages_io (- 1) GIF_LOAD256 (Some three_pages_info) zero_locals
     = Load mock_externals three_pages_io 0 GIF_LOAD256 (Some three_pages_info) zero_locals \<and>
   ((3::int) < - 1 \<or> int (length (image_descriptor_offsets three_pages_info)) \<le> 3) \<and>
   Load mock_externals three_pages_io 3 GIF_PLAYBACK (Some three_pages_info) zero_locals
     = (None, three_pages_io, [])"
  using Load_page_out_of_range [of mock_externals three_pages_io GIF_LOAD256 three_pages_info
      zero_locals 3]
    Load_page_out_of_range [of mock_externals three_pages_io GIF_PLAYBACK three_pages_info
      zero_locals 3]
  by (simp add: three_pages_info_def)

text \<open>
  Claim C7. When page \<open>k\<close> is loaded in playback mode, the backward scan stops at the
  keyframe nearest to \<open>k\<close>, not at page 0: the first page to draw is that keyframe, or the
  page after it when the keyframe's disposal is "restore to background", and it is page 0
  only when no page before \<open>k\<close> is a keyframe. The pages decoded are the needed pages from
  that page up to \<open>k\<close>, and no other. For three pages of which page 1 covers the canvas
  with the disposal "restore to background", loading page 2 decodes page 2 only; for four
  pages of which page 1 is the nearest keyframe, loading page 3 decodes pages 1, 2 and 3.
\<close>

theorem playback_stops_at_keyframe:
  assumes "headers_in_file info (content (handle h)) k"
      and "content (handle g) = content (handle h)"
  shows "fst (scan_pages info (short_at (content (handle h)) 6) (short_at (content (handle h)) 8)
                k k \<lparr>sc_io = g, sc_loc = loc, sc_pageinfo = []\<rparr>)
           = playback_start info (content (handle h)) k \<and>
         snd (snd (Load ext h (int k) GIF_PLAYBACK (Some info) loc)) =
           (if FreeImage_Allocate_ok ext (unat (short_at (content (handle h)) 6))
                 (unat (short_at (content (handle h)) 8)) 32
            then filter (page_needed info (content (handle h)) k)
                   [playback_start info (content (handle h)) k..<Suc k]
            else [])"
proof -
  have rd: "\<And>i. i \<le> k \<Longrightarrow>
      graphic_control_extension_offsets info ! i + 2 \<le> length (content (handle h)) \<and>
      image_descriptor_offsets info ! i + 8 \<le> length (content (handle h))"
    using headers_in_fileD [OF assms(1)] by blast
  have s: "fst (scan_pages info (short_at (content (handle h)) 6)
                  (short_at (content (handle h)) 8)
                  k k \<lparr>sc_io = g, sc_loc = loc, sc_pageinfo = []\<rparr>)
           = playback_start info (content (handle h)) k"
    using scan_pages_exact [of "\<lparr>sc_io = g, sc_loc = loc, sc_pageinfo = []\<rparr>"
        "content (handle h)" k info k] assms(2) rd by simp
  have "k < length (image_descriptor_offsets info)"
    using assms(1) by (simp add: headers_in_file_def)
  then have "Load ext h (int k) GIF_PLAYBACK (Some info) loc = Load_playback ext h k info loc"
    by (simp add: Load_def Let_def)
  then show ?thesis using Load_playback_decoded [OF assms(1)] s by simp
qed

lemma three_pages_headers: "headers_in_file three_pages_info three_pages 2"
  by code_simp

lemma three_pages_start: "playback_start three_pages_info three_pages 2 = 2"
  by code_simp

lemma three_pages_needed:
  "filter (page_needed three_pages_info three_pages 2) [2..<Suc 2] = [2]"
  by code_simp

lemma three_pages_allocate:
  "FreeImage_Allocate_ok mock_externals (unat (short_at three_pages 6))
     (unat (short_at three_pages 8)) 32"
  by code_simp

lemma three_pages_canvas: "short_at three_pages 6 = 2 \<and> short_at three_pages 8 = 2"
  by code_simp

lemma four_pages_headers: "headers_in_file four_pages_info four_pages 3"
  by code_simp

lemma four_pages_keyframes:
  "map (keyframe four_pages_info four_pages) [0, 1, 2] = [True, True, False]"
  by code_simp

lemma four_pages_start: "playback_start four_pages_info four_pages 3 = 1"
  by code_simp

lemma four_pages_needed:
  "filter (page_needed four_pages_info four_pages 3) [1..<Suc 3] = [1, 2, 3]"
  by code_simp

lemma four_pages_allocate:
  "FreeImage_Allocate_ok mock_externals (unat (short_at four_pages 6))
     (unat (short_at four_pages 8)) 32"
  by code_simp

lemma four_pages_canvas: "short_at four_pages 6 = 2 \<and> short_at four_pages 8 = 2"
  by code_simp

theorem playback_stops_at_keyframe_witness:
  "fst (scan_pages three_pages_info 2 2 2 2
          \<lparr>sc_io = three_pages_io, sc_loc = zero_locals, sc_pageinfo = []\<rparr>) = 2 \<and>
   snd (snd (Load mock_externals three_pages_io 2 GIF_PLAYBACK (Some three_pages_info)
               zero_locals)) = [2] \<and>
   fst (scan_pages four_pages_info 2 2 3 3
          \<lparr>sc_io = four_pages_io, sc_loc = zero_locals, sc_pageinfo = []\<rparr>) = 1 \<and>
   snd (snd (Load mock_externals four_pages_io 3 GIF_PLAYBACK (Some four_pages_info)
               zero_locals)) = [1, 2, 3]"
proof -
  have c3: "content (handle three_pages_io) = three_pages" by (simp add: three_pages_io_def)
  have c4: "content (handle four_pages_io) = four_pages" by (simp add: four_pages_io_def)
  have h3: "headers_in_file three_pages_info (content (handle three_pages_io)) 2"
    unfolding c3 by (rule three_pages_headers)
  have h4: "headers_in_file four_pages_info (content (handle four_pages_io)) 3"
    unfolding c4 by (rule four_pages_headers)
  note t3 = playback_stops_at_keyframe [OF h3 refl, of zero_locals mock_externals,
      unfolded c3 three_pages_start three_pages_needed]
  note t4 = playback_stops_at_keyframe [OF h4 refl, of zero_locals mock_externals,
      unfolded c4 four_pages_start four_pages_needed]
  show ?thesis
    using t3 t4 three_pages_allocate four_pages_allocate three_pages_canvas four_pages_canvas
    by simp
qed

section \<open>BMP palette: proofs\<close>

lemma os2_palette_entry_alpha:
  "map alpha (fst (os2_palette_entry k junk (pal, s) cnt)) = map alpha pal"
proof -
  have "\<And>x. alpha x = alpha (pal ! cnt) \<Longrightarrow> map alpha (pal[cnt := x]) = map alpha pal"
    by (cases "cnt < length pal") (simp_all add: map_update list_update_same_conv list_update_beyond)
  then show ?thesis
    by (simp add: os2_palette_entry_def Let_def case_prod_beta)
qed

lemma os2_palette_loop_alpha:
  "map alpha (fst (foldl (os2_palette_entry k junk) ps ns)) = map alpha (fst ps)"
proof (induction ns arbitrary: ps)
  case Nil
  then show ?case by simp
next
  case (Cons n ns)
  obtain pal s where ps: "ps = (pal, s)" by (cases ps)
  show ?case using Cons [of "os2_palette_entry k junk ps n"] os2_palette_entry_alpha [of k junk pal s n]
    by (simp add: ps)
qed

lemma LoadOS22XBMP_palette_alpha:
  "map alpha (fst (LoadOS22XBMP_palette s off biSize biClrUsed bit_count pal junk)) = map alpha pal"
  by (simp add: LoadOS22XBMP_palette_def Let_def os2_palette_loop_alpha)

lemma os2_read_entry_bytes:
  assumes "pos s + k \<le> length (content s)" and "i < k"
  shows "fill_buffer junk (fst (snd (read_proc s k 1))) ! i = content s ! (pos s + i)"
proof -
  have m: "min k (length (content s) - pos s) = k" using assms by simp
  have l: "length (take k (drop (pos s) (content s))) = k" using assms by simp
  show ?thesis
    using assms m l by (simp add: read_proc_def Let_def fill_buffer_def nth_append)
qed

lemma os2_read_entry_pos:
  assumes "pos s + k \<le> length (content s)"
  shows "snd (snd (read_proc s k 1)) = s\<lparr>pos := pos s + k\<rparr>"
proof -
  have m: "min k (length (content s) - pos s) = k" using assms by simp
  show ?thesis using m by (simp add: read_proc_def Let_def)
qed

lemma os2_palette_loop:
  assumes "pos s + k * n \<le> length (content s)" and "n \<le> length pal" and "3 \<le> k"
  shows "snd (foldl (os2_palette_entry k junk) (pal, s) [0..<n]) = s\<lparr>pos := pos s + k * n\<rparr> \<and>
         length (fst (foldl (os2_palette_entry k junk) (pal, s) [0..<n])) = length pal \<and>
         (\<forall>i < length pal.
            fst (foldl (os2_palette_entry k junk) (pal, s) [0..<n]) ! i =
              (if i < n then (pal ! i)\<lparr>red := content s ! (pos s + k * i + 2),
                                        green := content s ! (pos s + k * i + 1),
                                        blue := content s ! (pos s + k * i)\<rparr>
               else pal ! i))"
  using assms
proof (induction n)
  case 0
  then show ?case by simp
next
  case (Suc n)
  define r where "r = foldl (os2_palette_entry k junk) (pal, s) [0..<n]"
  have ih: "snd r = s\<lparr>pos := pos s + k * n\<rparr>" "length (fst r) = length pal"
    "\<forall>i < length pal. fst r ! i =
              (if i < n then (pal ! i)\<lparr>red := content s ! (pos s + k * i + 2),
                                        green := content s ! (pos s + k * i + 1),
                                        blue := content s ! (pos s + k * i)\<rparr>
               else pal ! i)"
    using Suc unfolding r_def by simp_all
  have step: "foldl (os2_palette_entry k junk) (pal, s) [0..<Suc n]
                = os2_palette_entry k junk (fst r, snd r) n"
    by (simp add: r_def)
  have room: "pos (snd r) + k \<le> length (content (snd r))"
    using Suc.prems ih(1) by simp
  have c: "content (snd r) = content s" and p: "pos (snd r) = pos s + k * n"
    using ih(1) by simp_all
  note rd = os2_read_entry_bytes [OF room, where junk = junk]
  note rp = os2_read_entry_pos [OF room]
  have b0: "fill_buffer junk (fst (snd (read_proc (snd r) k 1))) ! 0 = content s ! (pos s + k * n)"
    using rd [of 0] Suc.prems(3) c p by simp
  have b1: "fill_buffer junk (fst (snd (read_proc (snd r) k 1))) ! 1
              = content s ! (pos s + k * n + 1)"
    using rd [of 1] Suc.prems(3) c p by simp
  have b2: "fill_buffer junk (fst (snd (read_proc (snd r) k 1))) ! 2
              = content s ! (pos s + k * n + 2)"
    using rd [of 2] Suc.prems(3) c p by simp
  have e: "os2_palette_entry k junk (fst r, snd r) n =
             ((fst r)[n := (fst r ! n)\<lparr>red := content s ! (pos s + k * n + 2),
                                        green := content s ! (pos s + k * n + 1),
                                        blue := content s ! (pos s + k * n)\<rparr>],
              s\<lparr>pos := pos s + k * Suc n\<rparr>)"
    using b0 b1 b2 rp ih(1)
    by (simp add: os2_palette_entry_def Let_def case_prod_beta add.assoc)
  have n: "n < length pal" using Suc.prems(2) by simp
  show ?case
    unfolding step e using ih(2) ih(3) n
    by (auto simp: nth_list_update less_Suc_eq)
qed

lemma os2_used_colors_pos:
  assumes "bit_count = 1 \<or> bit_count = 4 \<or> bit_count = 8"
  shows "0 < unat (os2_used_colors biClrUsed bit_count)"
  using assms
  by (auto simp: os2_used_colors_def CalculateUsedPaletteEntries_def unat_gt_0)

lemma unat_ucast_32_64: "unat (ucast (w :: 32 word) :: 64 word) = unat w"
proof -
  have "unat w < 2 ^ 32" using unsigned_less [of w, where ?'a = nat] by simp
  then have "unat w < 2 ^ 64" by simp
  then show ?thesis by (simp add: unsigned_ucast_eq take_bit_nat_eq_self)
qed

lemma unat_ucast_64_32: "unat y < 2 ^ 32 \<Longrightarrow> unat (ucast (y :: 64 word) :: 32 word) = unat y"
  by (simp add: unsigned_ucast_eq take_bit_nat_eq_self)

lemma os2_pal_size_exact:
  assumes n: "0 < unat used_colors"
      and off: "unat bitmap_bits_offset = sizeof_BITMAPFILEHEADER + unat biSize + unat used_colors * k"
      and k: "k < 2 ^ 32"
  shows "unat (os2_pal_size bitmap_bits_offset biSize used_colors) = k"
proof -
  let ?o = "ucast bitmap_bits_offset :: 64 word"
  let ?h = "of_nat sizeof_BITMAPFILEHEADER :: 64 word"
  let ?b = "ucast biSize :: 64 word"
  let ?u = "ucast used_colors :: 64 word"
  have uo: "unat ?o = unat bitmap_bits_offset" by (rule unat_ucast_32_64)
  have ub: "unat ?b = unat biSize" by (rule unat_ucast_32_64)
  have uu: "unat ?u = unat used_colors" by (rule unat_ucast_32_64)
  have uh: "unat ?h = sizeof_BITMAPFILEHEADER" by (simp add: sizeof_BITMAPFILEHEADER_def)
  have le1: "?h \<le> ?o" using off by (simp add: word_le_nat_alt uo uh)
  have s1: "unat (?o - ?h) = unat bitmap_bits_offset - sizeof_BITMAPFILEHEADER"
    using le1 by (simp add: unat_sub uo uh)
  have le2: "?b \<le> ?o - ?h" using off by (simp add: word_le_nat_alt s1 ub)
  have s2: "unat (?o - ?h - ?b) = unat used_colors * k"
    using le2 off by (simp add: unat_sub s1 ub)
  have d: "unat ((?o - ?h - ?b) div ?u) = k"
    using n by (simp add: unat_div s2 uu)
  show ?thesis
    unfolding os2_pal_size_def using unat_ucast_64_32 [of "(?o - ?h - ?b) div ?u"] d k by simp
qed

text \<open>
  Claim C8, as amended. In LoadOS22XBMP the entry size of the palette is the size of the
  palette region (the offset of the pixels less the two headers) divided by the number
  of entries. When the region is exactly N entries of 3 bytes, or exactly N entries of 4
  bytes, and the file holds it, entry i is read at that stride and its blue, green and
  red bytes become the blue, green and red of palette entry i. The alpha of the palette
  is left as it was: the fourth byte of a 4-byte entry is read and not stored.
\<close>

theorem os2_palette_entry_size_detected:
  assumes "bit_count = 1 \<or> bit_count = 4 \<or> bit_count = 8"
      and "k = 3 \<or> k = 4"
      and "unat bitmap_bits_offset =
             sizeof_BITMAPFILEHEADER + unat biSize
               + unat (os2_used_colors biClrUsed bit_count) * k"
      and "unat bitmap_bits_offset \<le> length (content s)"
      and "unat (os2_used_colors biClrUsed bit_count) \<le> length pal"
      and "i < unat (os2_used_colors biClrUsed bit_count)"
  shows "fst (LoadOS22XBMP_palette s bitmap_bits_offset biSize biClrUsed bit_count pal junk) ! i
           = (pal ! i)\<lparr>red := content s ! (sizeof_BITMAPFILEHEADER + unat biSize + k * i + 2),
                       green := content s ! (sizeof_BITMAPFILEHEADER + unat biSize + k * i + 1),
                       blue := content s ! (sizeof_BITMAPFILEHEADER + unat biSize + k * i)\<rparr> \<and>
         alpha (fst (LoadOS22XBMP_palette s bitmap_bits_offset biSize biClrUsed bit_count pal junk) ! i)
           = alpha (pal ! i)"
proof -
  let ?n = "unat (os2_used_colors biClrUsed bit_count)"
  let ?s1 = "seek_set s (sizeof_BITMAPFILEHEADER + unat biSize)"
  have pos: "0 < ?n" by (rule os2_used_colors_pos [OF assms(1)])
  have k32: "k < 2 ^ 32" using assms(2) by auto
  have ps: "unat (os2_pal_size bitmap_bits_offset biSize (os2_used_colors biClrUsed bit_count)) = k"
    by (rule os2_pal_size_exact [OF pos assms(3) k32])
  have room: "pos ?s1 + k * ?n \<le> length (content ?s1)"
    using assms(3) assms(4) by (simp add: seek_set_def mult.commute)
  have k3: "3 \<le> k" using assms(2) by auto
  note loop = os2_palette_loop [OF room assms(5) k3]
  have il: "i < length pal" using assms(5) assms(6) by simp
  have eq: "LoadOS22XBMP_palette s bitmap_bits_offset biSize biClrUsed bit_count pal junk
              = foldl (os2_palette_entry k (take k junk)) (pal, ?s1) [0..<?n]"
    using assms(2) ps by (auto simp: LoadOS22XBMP_palette_def Let_def word_unat_eq_iff)
  have first: "fst (LoadOS22XBMP_palette s bitmap_bits_offset biSize biClrUsed bit_count pal junk) ! i
           = (pal ! i)\<lparr>red := content s ! (sizeof_BITMAPFILEHEADER + unat biSize + k * i + 2),
                       green := content s ! (sizeof_BITMAPFILEHEADER + unat biSize + k * i + 1),
                       blue := content s ! (sizeof_BITMAPFILEHEADER + unat biSize + k * i)\<rparr>"
    unfolding eq using loop [of "take k junk"] il assms(6) by (simp add: seek_set_def)
  then show ?thesis by simp
qed

lemma os2_example_loaded:
  "fst (LoadOS22XBMP_palette os2_example 86 64 0 1 os2_example_pal [0, 0, 0, 0]) =
     [\<lparr>red = 0x30, green = 0x20, blue = 0x10, alpha = 0\<rparr>,
      \<lparr>red = 0x60, green = 0x50, blue = 0x40, alpha = 0\<rparr>]"
  by code_simp

theorem os2_palette_entry_size_detected_witness:
  "((1::nat) = 1 \<or> (1::nat) = 4 \<or> (1::nat) = 8) \<and>
   ((4::nat) = 3 \<or> (4::nat) = 4) \<and>
   unat (86 :: 32 word) =
     sizeof_BITMAPFILEHEADER + unat (64 :: 32 word) + unat (os2_used_colors 0 1) * 4 \<and>
   unat (86 :: 32 word) \<le> length (content os2_example) \<and>
   unat (os2_used_colors 0 1) \<le> length os2_example_pal \<and>
   1 < unat (os2_used_colors 0 1) \<and>
   fst (LoadOS22XBMP_palette os2_example 86 64 0 1 os2_example_pal [0, 0, 0, 0]) ! 1
     = \<lparr>red = 0x60, green = 0x50, blue = 0x40, alpha = 0\<rparr>"
proof -
  have u: "unat (os2_used_colors 0 1) = 2"
    by code_simp
  have a1: "(1::nat) = 1 \<or> (1::nat) = 4 \<or> (1::nat) = 8" by simp
  have a2: "(4::nat) = 3 \<or> (4::nat) = 4" by simp
  have a3: "unat (86 :: 32 word) =
     sizeof_BITMAPFILEHEADER + unat (64 :: 32 word) + unat (os2_used_colors 0 1) * 4"
    using u by (simp add: sizeof_BITMAPFILEHEADER_def)
  have a4: "unat (86 :: 32 word) \<le> length (content os2_example)"
    by (simp add: os2_example_def)
  have a5: "unat (os2_used_colors 0 1) \<le> length os2_example_pal"
    using u by (simp add: os2_example_pal_def)
  have a6: "1 < unat (os2_used_colors 0 1)" using u by simp
  have e: "(os2_example_pal ! 1)
        \<lparr>red := content os2_example ! (sizeof_BITMAPFILEHEADER + unat (64 :: 32 word) + 4 * 1 + 2),
         green := content os2_example ! (sizeof_BITMAPFILEHEADER + unat (64 :: 32 word) + 4 * 1 + 1),
         blue := content os2_example ! (sizeof_BITMAPFILEHEADER + unat (64 :: 32 word) + 4 * 1)\<rparr>
       = \<lparr>red = 0x60, green = 0x50, blue = 0x40, alpha = 0\<rparr>"
    by code_simp
  have "fst (LoadOS22XBMP_palette os2_example 86 64 0 1 os2_example_pal [0, 0, 0, 0]) ! 1
     = \<lparr>red = 0x60, green = 0x50, blue = 0x40, alpha = 0\<rparr>"
    using conjunct1 [OF os2_palette_entry_size_detected [OF a1 a2 a3 a4 a5 a6, of "[0, 0, 0, 0]"]]
    unfolding e .
  then show ?thesis using a1 a2 a3 a4 a5 a6 by blast
qed

text \<open>
  The claim as stated fails on the alpha channel: the first entry of the example, an
  OS/2 2.x file with a header of 64 bytes, has the fourth byte 0xFF at offset 81, and the
  alpha of the first palette entry is still 0 after the load.
\<close>

theorem os2_palette_alpha_counterexample:
  "alpha (fst (LoadOS22XBMP_palette os2_example 86 64 0 1 os2_example_pal [0, 0, 0, 0]) ! 0)
     \<noteq> content os2_example ! 81"
  by code_simp

section \<open>BMP run-length coding: proofs\<close>

subsection \<open>Reading from the front of the stream\<close>

lemma read_proc_front:
  assumes "drop (pos s) (content s) = bs @ rest" and "length bs = k" and "0 < k"
  shows "read_proc s k 1 = (1, bs, s\<lparr>pos := pos s + k\<rparr>)"
proof -
  have "length (drop (pos s) (content s)) = k + length rest" using assms by simp
  then have m: "min k (length (content s) - pos s) = k" by simp
  have t: "take k (drop (pos s) (content s)) = bs" using assms by simp
  show ?thesis using m t assms(3) by (simp add: read_proc_def Let_def)
qed

lemma drop_front:
  assumes "drop p c = bs @ rest"
  shows "drop (p + length bs) c = rest"
proof -
  have "drop (p + length bs) c = drop (length bs) (drop p c)" by (simp add: add.commute)
  then show ?thesis using assms by simp
qed

lemma read_proc_byte:
  assumes "drop (pos s) (content s) = b # rest"
  shows "read_proc s 1 1 = (1, [b], s\<lparr>pos := pos s + 1\<rparr>)"
  using read_proc_front [of s "[b]" rest 1] assms by simp

lemma drop_byte:
  assumes "drop p c = b # rest"
  shows "drop (p + 1) c = rest"
  using drop_front [of p c "[b]" rest] assms by simp

subsection \<open>One round of the decoder on each kind of token\<close>

lemma rle8_count_fits:
  assumes "bits + unat n \<le> w"
  shows "rle8_count n (int w) bits = uint n"
proof -
  have "int (bits + unat n) \<le> int w" using assms by (rule of_nat_mono)
  then have "int bits + uint n \<le> int w" by simp
  then show ?thesis by (simp add: rle8_count_def min_def)
qed

lemma as_unsigned_byte: "as_unsigned (uint n) = unat n" for n :: byte
proof -
  have "uint n < 2 ^ 8" using uint_lt2p [of n] by simp
  then have "uint n < 2 ^ 32" by simp
  then have "uint n mod 2 ^ 32 = uint n" by simp
  then show ?thesis by (simp add: as_unsigned_def)
qed

lemma odd_byte: "(n AND 1 = 1) = (unat n mod 2 = 1)" for n :: byte
proof -
  have "(n AND 1 = 1) = bit n 0"
    by (simp add: and_one_eq bit_0 odd_iff_mod_2_eq_one)
  also have "\<dots> = bit (unat n) 0" by (simp add: bit_unsigned_iff)
  also have "\<dots> = (unat n mod 2 = 1)" by (simp add: bit_0 odd_iff_mod_2_eq_one)
  finally show ?thesis .
qed

lemma rle8_round_run:
  assumes d: "drop (pos (r8_io st)) (content (r8_io st)) = n # v # rest"
      and n: "n \<noteq> 0"
      and y: "int (r8_scanline st) < abs height"
      and w: "r8_bits st + unat n \<le> w"
  shows "rle8_round (int w) height st =
           Inr (st\<lparr>r8_io := (r8_io st)\<lparr>pos := pos (r8_io st) + 2\<rparr>,
                   r8_dib := store_bytes (r8_dib st) (r8_scanline st) (r8_bits st)
                               (replicate (unat n) v),
                   r8_bits := r8_bits st + unat n\<rparr>)"
proof -
  let ?s1 = "(r8_io st)\<lparr>pos := pos (r8_io st) + 1\<rparr>"
  have r1: "read_proc (r8_io st) 1 1 = (1, [n], ?s1)" by (rule read_proc_byte [OF d])
  have d1: "drop (pos ?s1) (content ?s1) = v # rest" using drop_byte [OF d] by simp
  have r2: "read_proc ?s1 1 1 = (1, [v], ?s1\<lparr>pos := pos ?s1 + 1\<rparr>)"
    by (rule read_proc_byte [OF d1])
  have c: "rle8_count n (int w) (r8_bits st) = uint n" by (rule rle8_count_fits [OF w])
  show ?thesis
    unfolding rle8_round_def r1 r2 Let_def prod.case nth_Cons_0 c
    using n y by (simp add: RLE_COMMAND_def)
qed

lemma rle8_round_endofline:
  assumes d: "drop (pos (r8_io st)) (content (r8_io st)) = RLE_COMMAND # RLE_ENDOFLINE # rest"
  shows "rle8_round width height st =
           Inr (st\<lparr>r8_io := (r8_io st)\<lparr>pos := pos (r8_io st) + 2\<rparr>,
                   r8_bits := 0, r8_scanline := r8_scanline st + 1\<rparr>)"
proof -
  let ?s1 = "(r8_io st)\<lparr>pos := pos (r8_io st) + 1\<rparr>"
  have r1: "read_proc (r8_io st) 1 1 = (1, [RLE_COMMAND], ?s1)" by (rule read_proc_byte [OF d])
  have d1: "drop (pos ?s1) (content ?s1) = RLE_ENDOFLINE # rest" using drop_byte [OF d] by simp
  have r2: "read_proc ?s1 1 1 = (1, [RLE_ENDOFLINE], ?s1\<lparr>pos := pos ?s1 + 1\<rparr>)"
    by (rule read_proc_byte [OF d1])
  show ?thesis
    unfolding rle8_round_def r1 r2 Let_def prod.case nth_Cons_0 by simp
qed

lemma rle8_round_endofbitmap:
  assumes d: "drop (pos (r8_io st)) (content (r8_io st)) = RLE_COMMAND # RLE_ENDOFBITMAP # rest"
  shows "rle8_round width height st =
           Inl (True, st\<lparr>r8_io := (r8_io st)\<lparr>pos := pos (r8_io st) + 2\<rparr>\<rparr>)"
proof -
  let ?s1 = "(r8_io st)\<lparr>pos := pos (r8_io st) + 1\<rparr>"
  have r1: "read_proc (r8_io st) 1 1 = (1, [RLE_COMMAND], ?s1)" by (rule read_proc_byte [OF d])
  have d1: "drop (pos ?s1) (content ?s1) = RLE_ENDOFBITMAP # rest" using drop_byte [OF d] by simp
  have r2: "read_proc ?s1 1 1 = (1, [RLE_ENDOFBITMAP], ?s1\<lparr>pos := pos ?s1 + 1\<rparr>)"
    by (rule read_proc_byte [OF d1])
  show ?thesis
    unfolding rle8_round_def r1 r2 Let_def prod.case nth_Cons_0
    by (simp add: RLE_ENDOFBITMAP_def RLE_ENDOFLINE_def)
qed

lemma rle8_round_literal:
  assumes d: "drop (pos (r8_io st)) (content (r8_io st))
                = RLE_COMMAND # n # l @ padding @ rest"
      and n: "3 \<le> unat n" "length l = unat n" "length padding = unat n mod 2"
      and y: "int (r8_scanline st) < abs height"
      and w: "r8_bits st + unat n \<le> w"
  shows "rle8_round (int w) height st =
           Inr (st\<lparr>r8_io := (r8_io st)\<lparr>pos := pos (r8_io st) + 2 + length l + length padding\<rparr>,
                   r8_dib := store_bytes (r8_dib st) (r8_scanline st) (r8_bits st) l,
                   r8_bits := r8_bits st + unat n\<rparr>)"
proof -
  let ?s1 = "(r8_io st)\<lparr>pos := pos (r8_io st) + 1\<rparr>"
  let ?s2 = "(r8_io st)\<lparr>pos := pos (r8_io st) + 2\<rparr>"
  let ?s3 = "(r8_io st)\<lparr>pos := pos (r8_io st) + 2 + length l\<rparr>"
  have r1: "read_proc (r8_io st) 1 1 = (1, [RLE_COMMAND], ?s1)" by (rule read_proc_byte [OF d])
  have d1: "drop (pos ?s1) (content ?s1) = n # l @ padding @ rest" using drop_byte [OF d] by simp
  have r2: "read_proc ?s1 1 1 = (1, [n], ?s2)"
    using read_proc_byte [OF d1] by (simp add: add.assoc)
  have d2: "drop (pos ?s2) (content ?s2) = l @ padding @ rest"
    using drop_byte [OF d1] by (simp add: add.assoc)
  have lpos: "0 < length l" using n by simp
  have c: "rle8_count n (int w) (r8_bits st) = uint n" by (rule rle8_count_fits [OF w])
  have u: "as_unsigned (uint n) = length l" using n(2) by (simp add: as_unsigned_byte)
  have r3: "read_proc ?s2 (length l) 1 = (1, l, ?s3)"
    using read_proc_front [OF d2 refl lpos] by (simp add: add.assoc)
  have d3: "drop (pos ?s3) (content ?s3) = padding @ rest"
    using drop_front [OF d2] by (simp add: add.assoc)
  have ne: "n \<noteq> RLE_ENDOFLINE" "n \<noteq> RLE_ENDOFBITMAP" "n \<noteq> RLE_DELTA"
    using n(1) by (auto simp: RLE_ENDOFLINE_def RLE_ENDOFBITMAP_def RLE_DELTA_def)
  show ?thesis
  proof (cases "unat n mod 2 = 1")
    case True
    then obtain p where p: "padding = [p]" using n(3) by (cases padding) auto
    have r4: "read_proc ?s3 1 1 = (1, [p], ?s3\<lparr>pos := pos ?s3 + 1\<rparr>)"
      using read_proc_byte [of ?s3 p rest] d3 p by simp
    show ?thesis
      unfolding rle8_round_def r1 r2 Let_def prod.case nth_Cons_0 c u r3 r4 odd_byte
      using ne y True p by (simp add: add.assoc)
  next
    case False
    then have p: "padding = []" using n(3) by simp
    show ?thesis
      unfolding rle8_round_def r1 r2 Let_def prod.case nth_Cons_0 c u r3 odd_byte
      using ne y False p by (simp add: add.assoc)
  qed
qed

subsection \<open>Encoded rows\<close>

lemma rle_line_append:
  assumes "rle_line e1 d1" and "rle_line e2 d2"
  shows "rle_line (e1 @ e2) (d1 @ d2)"
  using assms
proof (induction rule: rle_line.induct)
  case rle_nil
  then show ?case by simp
next
  case (rle_run e d n v)
  from rle_line.rle_run [OF rle_run.IH [OF rle_run.prems] rle_run.hyps(2,3), of v]
  show ?case by simp
next
  case (rle_lit e d l padding)
  from rle_line.rle_lit [OF rle_lit.IH [OF rle_lit.prems] rle_lit.hyps(2,3,4)]
  show ?case by simp
qed

lemma rle_line_run1: "0 < n \<Longrightarrow> n \<le> 255 \<Longrightarrow> rle_line [of_nat n, v] (replicate n v)"
  using rle_run [OF rle_nil, of n v] by simp

lemma rle_line_lit1:
  "3 \<le> length l \<Longrightarrow> length l \<le> 255 \<Longrightarrow> length padding = length l mod 2
     \<Longrightarrow> rle_line (RLE_COMMAND # of_nat (length l) # l @ padding) l"
  using rle_lit [OF rle_nil, of l padding] by simp

lemma unat_of_nat_byte: "n \<le> 255 \<Longrightarrow> unat (of_nat n :: byte) = n"
  by (simp add: unat_of_nat take_bit_nat_eq_self)

lemma store_bytes_append:
  "store_bytes (store_bytes m y a xs) y (a + length xs) ys = store_bytes m y a (xs @ ys)"
  by (intro ext) (auto simp: store_bytes_def nth_append)

lemma store_bytes_nil: "store_bytes m y a [] = m"
  by (intro ext) (auto simp: store_bytes_def)

text \<open>
  The decoder on an encoded row that fits the width: the rounds that read it store the row
  at the current place of the current scanline.
\<close>

lemma rle8_rounds_line:
  assumes "rle_line e d"
      and "drop (pos (r8_io st)) (content (r8_io st)) = e @ rest"
      and "r8_bits st + length d \<le> w"
      and "int (r8_scanline st) < abs height"
  shows "rle8_rounds (int w) height st =
         rle8_rounds (int w) height
           (st\<lparr>r8_io := (r8_io st)\<lparr>pos := pos (r8_io st) + length e\<rparr>,
               r8_dib := store_bytes (r8_dib st) (r8_scanline st) (r8_bits st) d,
               r8_bits := r8_bits st + length d\<rparr>)"
  using assms
proof (induction arbitrary: st rule: rle_line.induct)
  case rle_nil
  then show ?case by (simp add: store_bytes_nil)
next
  case (rle_run e d n v)
  let ?n = "of_nat n :: byte"
  have un: "unat ?n = n" using rle_run.hyps(3) by (rule unat_of_nat_byte)
  have n0: "?n \<noteq> 0" using un rle_run.hyps(2) by (metis unat_0 less_numeral_extra(3))
  have dr: "drop (pos (r8_io st)) (content (r8_io st)) = ?n # v # (e @ rest)"
    using rle_run.prems(1) by simp
  have w1: "r8_bits st + unat ?n \<le> w" using rle_run.prems(2) un by simp
  define st1 where "st1 = st\<lparr>r8_io := (r8_io st)\<lparr>pos := pos (r8_io st) + 2\<rparr>,
                   r8_dib := store_bytes (r8_dib st) (r8_scanline st) (r8_bits st)
                               (replicate (unat ?n) v),
                   r8_bits := r8_bits st + unat ?n\<rparr>"
  have round: "rle8_round (int w) height st = Inr st1"
    unfolding st1_def by (rule rle8_round_run [OF dr n0 rle_run.prems(3) w1])
  have step: "rle8_rounds (int w) height st = rle8_rounds (int w) height st1"
    by (subst rle8_rounds.simps) (simp add: round)
  have d1: "drop (pos (r8_io st1)) (content (r8_io st1)) = e @ rest"
    using drop_front [of "pos (r8_io st)" "content (r8_io st)" "[?n, v]" "e @ rest"] dr
    by (simp add: st1_def)
  have w2: "r8_bits st1 + length d \<le> w" using rle_run.prems(2) un by (simp add: st1_def)
  have y2: "int (r8_scanline st1) < abs height" using rle_run.prems(3) by (simp add: st1_def)
  note ih = rle_run.IH [OF d1 w2 y2]
  have fin: "st1\<lparr>r8_io := (r8_io st1)\<lparr>pos := pos (r8_io st1) + length e\<rparr>,
               r8_dib := store_bytes (r8_dib st1) (r8_scanline st1) (r8_bits st1) d,
               r8_bits := r8_bits st1 + length d\<rparr>
           = st\<lparr>r8_io := (r8_io st)\<lparr>pos := pos (r8_io st) + length (?n # v # e)\<rparr>,
               r8_dib := store_bytes (r8_dib st) (r8_scanline st) (r8_bits st)
                           (replicate n v @ d),
               r8_bits := r8_bits st + length (replicate n v @ d)\<rparr>"
    using store_bytes_append [of "r8_dib st" "r8_scanline st" "r8_bits st"
        "replicate n v" d]
    by (simp add: st1_def un add.assoc)
  show ?case unfolding step ih fin ..
next
  case (rle_lit e d l padding)
  let ?n = "of_nat (length l) :: byte"
  have un: "unat ?n = length l" using rle_lit.hyps(3) by (rule unat_of_nat_byte)
  have dr: "drop (pos (r8_io st)) (content (r8_io st))
              = RLE_COMMAND # ?n # l @ padding @ (e @ rest)"
    using rle_lit.prems(1) by simp
  have w1: "r8_bits st + unat ?n \<le> w" using rle_lit.prems(2) un by simp
  define st1 where "st1 = st\<lparr>r8_io := (r8_io st)\<lparr>pos := pos (r8_io st) + 2 + length l
                                                   + length padding\<rparr>,
                   r8_dib := store_bytes (r8_dib st) (r8_scanline st) (r8_bits st) l,
                   r8_bits := r8_bits st + unat ?n\<rparr>"
  have round: "rle8_round (int w) height st = Inr st1"
    unfolding st1_def
    by (rule rle8_round_literal [OF dr _ _ _ rle_lit.prems(3) w1])
      (simp_all add: un rle_lit.hyps)
  have step: "rle8_rounds (int w) height st = rle8_rounds (int w) height st1"
    by (subst rle8_rounds.simps) (simp add: round)
  have d1: "drop (pos (r8_io st1)) (content (r8_io st1)) = e @ rest"
    using drop_front [of "pos (r8_io st)" "content (r8_io st)"
        "RLE_COMMAND # ?n # l @ padding" "e @ rest"] dr
    by (simp add: st1_def add.assoc)
  have w2: "r8_bits st1 + length d \<le> w" using rle_lit.prems(2) un by (simp add: st1_def)
  have y2: "int (r8_scanline st1) < abs height" using rle_lit.prems(3) by (simp add: st1_def)
  note ih = rle_lit.IH [OF d1 w2 y2]
  have fin: "st1\<lparr>r8_io := (r8_io st1)\<lparr>pos := pos (r8_io st1) + length e\<rparr>,
               r8_dib := store_bytes (r8_dib st1) (r8_scanline st1) (r8_bits st1) d,
               r8_bits := r8_bits st1 + length d\<rparr>
           = st\<lparr>r8_io := (r8_io st)\<lparr>pos := pos (r8_io st)
                                  + length (RLE_COMMAND # ?n # l @ padding @ e)\<rparr>,
               r8_dib := store_bytes (r8_dib st) (r8_scanline st) (r8_bits st) (l @ d),
               r8_bits := r8_bits st + length (l @ d)\<rparr>"
    using store_bytes_append [of "r8_dib st" "r8_scanline st" "r8_bits st" l d]
    by (simp add: st1_def un add.assoc)
  show ?case unfolding step ih fin ..
qed

subsection \<open>The encoder writes an encoded row\<close>

lemma pool_invI:
  "rle_line target d \<Longrightarrow> d @ buffer = consumed \<Longrightarrow> length buffer < bound
     \<Longrightarrow> pool_inv bound consumed (target, buffer)"
  unfolding pool_inv_def fst_conv snd_conv by blast

lemma pool_invE:
  assumes "pool_inv bound consumed (target, buffer)"
  obtains d where "rle_line target d" and "d @ buffer = consumed" and "length buffer < bound"
  using assms unfolding pool_inv_def fst_conv snd_conv by blast

lemma flush_full_inv:
  assumes "pool_inv 255 consumed tb"
  shows "pool_inv 254 consumed (flush_full tb)"
proof -
  obtain target buffer where tb: "tb = (target, buffer)" by (cases tb)
  from assms obtain d where d: "rle_line target d" "d @ buffer = consumed"
      "length buffer < 255"
    unfolding tb by (rule pool_invE)
  show ?thesis
  proof (cases "length buffer = 254")
    case True
    have l: "rle_line (RLE_COMMAND # of_nat (length buffer) # buffer @ []) buffer"
      by (rule rle_line_lit1) (simp_all add: True)
    have f: "flush_full tb = (target @ (RLE_COMMAND # of_nat (length buffer) # buffer @ []), [])"
      by (simp add: flush_full_def tb True)
    show ?thesis unfolding f
    proof (rule pool_invI)
      show "rle_line (target @ (RLE_COMMAND # of_nat (length buffer) # buffer @ [])) (d @ buffer)"
        by (rule rle_line_append [OF d(1) l])
      show "(d @ buffer) @ [] = consumed" using d(2) by simp
      show "length ([] :: byte list) < 254" by simp
    qed
  next
    case False
    then have f: "flush_full tb = (target, buffer)" by (simp add: flush_full_def tb)
    show ?thesis unfolding f
      by (rule pool_invI [OF d(1,2)]) (use False d(3) in simp)
  qed
qed

lemma pool_push_inv:
  assumes "pool_inv 254 consumed (target, buffer)"
  shows "pool_inv 254 (consumed @ [x]) (flush_full (target, buffer @ [x]))"
proof -
  from assms obtain d where d: "rle_line target d" "d @ buffer = consumed"
      "length buffer < 254"
    by (rule pool_invE)
  have "pool_inv 255 (consumed @ [x]) (target, buffer @ [x])"
    by (rule pool_invI [OF d(1)]) (use d(2,3) in simp_all)
  then show ?thesis by (rule flush_full_inv)
qed

lemma pool_bytes_inv:
  assumes "pool_inv 254 consumed tb"
  shows "pool_inv 254 (consumed @ map (\<lambda>k. source ! (i + k)) [0..<m])
           (foldl (pool_byte source i) tb [0..<m])"
proof (induction m)
  case 0
  then show ?case using assms by simp
next
  case (Suc m)
  obtain t b where r: "foldl (pool_byte source i) tb [0..<m] = (t, b)"
    by (cases "foldl (pool_byte source i) tb [0..<m]")
  have step: "foldl (pool_byte source i) tb [0..<Suc m]
      = flush_full (t, b @ [source ! (i + m)])"
    by (simp add: r) (simp add: pool_byte_def)
  have "pool_inv 254 (consumed @ map (\<lambda>k. source ! (i + k)) [0..<m]) (t, b)"
    using Suc r by simp
  from pool_push_inv [OF this, of "source ! (i + m)"]
  show ?case unfolding step by simp
qed

lemma flush_pool_line:
  assumes "pool_inv 255 consumed (target, buffer)"
  shows "rle_line (flush_pool old buffer target) consumed"
proof -
  from assms obtain d where d: "rle_line target d" "d @ buffer = consumed" "length buffer < 255"
    by (rule pool_invE)
  have tok: "\<exists>e. flush_pool old buffer target = target @ e \<and> rle_line e buffer"
  proof -
    consider "length buffer = 0" | "length buffer = 1" | "length buffer = 2"
      | "3 \<le> length buffer" by linarith
    then show ?thesis
    proof cases
      case 1
      then show ?thesis by (simp add: flush_pool_def rle_nil)
    next
      case 2
      then obtain x where b: "buffer = [x]" by (cases buffer) auto
      have "rle_line [of_nat 1, x] (replicate 1 x)" by (rule rle_line_run1) simp_all
      then show ?thesis
        by (simp add: flush_pool_def b RLE_DELTA_def RLE_ENDOFBITMAP_def)
    next
      case 3
      then obtain x y where b: "buffer = [x, y]"
        by (cases buffer; cases "tl buffer") auto
      have x: "rle_line [of_nat 1, x] (replicate 1 x)" by (rule rle_line_run1) simp_all
      have y: "rle_line [of_nat 1, y] (replicate 1 y)" by (rule rle_line_run1) simp_all
      from rle_line_append [OF x y] show ?thesis
        by (simp add: flush_pool_def b RLE_DELTA_def RLE_ENDOFBITMAP_def)
    next
      case 4
      let ?t1 = "target @ [RLE_COMMAND, of_nat (length buffer)] @ buffer"
      let ?padding = "if length buffer mod 2 = 1 then [old (length ?t1)] else []"
      have "rle_line (RLE_COMMAND # of_nat (length buffer) # buffer @ ?padding) buffer"
      proof (rule rle_line_lit1)
        show "3 \<le> length buffer" by (rule 4)
        show "length buffer \<le> 255" using d(3) by simp
        have "length buffer mod 2 = 0 \<or> length buffer mod 2 = 1" by arith
        then show "length ?padding = length buffer mod 2" by auto
      qed
      moreover have "flush_pool old buffer target
          = target @ (RLE_COMMAND # of_nat (length buffer) # buffer @ ?padding)"
      proof -
        have "buffer \<noteq> []" using 4 by auto
        then show ?thesis
          using 4 by (simp add: flush_pool_def RLE_DELTA_def RLE_ENDOFBITMAP_def Let_def)
      qed
      ultimately show ?thesis by blast
    qed
  qed
  then obtain e where e: "flush_pool old buffer target = target @ e" "rle_line e buffer"
    by blast
  show ?thesis using rle_line_append [OF d(1) e(2)] e(1) d(2) by simp
qed

lemma run_inv:
  assumes "pool_inv 254 consumed (target, buffer)" and "0 < n" and "n \<le> 255"
  shows "pool_inv 254 (consumed @ replicate n v)
           (flush_full (flush_pool old buffer target @ [of_nat n, v], []))"
proof -
  from assms(1) obtain d where d: "rle_line target d" "d @ buffer = consumed"
      "length buffer < 254"
    by (rule pool_invE)
  have "pool_inv 255 consumed (target, buffer)"
    by (rule pool_invI [OF d(1,2)]) (use d(3) in simp)
  then have l: "rle_line (flush_pool old buffer target) consumed" by (rule flush_pool_line)
  have "rle_line (flush_pool old buffer target @ [of_nat n, v]) (consumed @ replicate n v)"
    by (rule rle_line_append [OF l rle_line_run1 [OF assms(2,3)]])
  then have "pool_inv 255 (consumed @ replicate n v)
           (flush_pool old buffer target @ [of_nat n, v], [])"
    by (rule pool_invI) simp_all
  then show ?thesis by (rule flush_full_inv)
qed

text \<open>The end of a run of equal bytes, as the inner \<open>while\<close> finds it.\<close>

lemma same_from_Suc:
  assumes "same_from source i j" and "i \<le> j" and "source ! j = source ! (j + 1)"
  shows "same_from source i (j + 1)"
  unfolding same_from_def
proof (intro allI impI)
  fix k assume k: "i \<le> k \<and> k \<le> j + 1"
  show "source ! k = source ! i"
  proof (cases "k = j + 1")
    case True
    have "source ! j = source ! i" using assms(1,2) unfolding same_from_def by blast
    then show ?thesis using assms(3) True by simp
  next
    case False
    then have "i \<le> k \<and> k \<le> j" using k by arith
    then show ?thesis using assms(1) unfolding same_from_def by blast
  qed
qed

lemma run_end_run:
  assumes "i \<le> j" and "j \<le> size' - 1" and "j \<le> jmax" and "same_from source i j"
  shows "j \<le> run_end source size' jmax j \<and>
         run_end source size' jmax j \<le> size' - 1 \<and>
         run_end source size' jmax j \<le> jmax \<and>
         same_from source i (run_end source size' jmax j)"
  using assms
proof (induction source size' jmax j rule: run_end.induct)
  case (1 source size' jmax j)
  show ?case
  proof (cases "j < size' - 1 \<and> j < jmax \<and> source ! j = source ! (j + 1)")
    case True
    have eq: "run_end source size' jmax j = run_end source size' jmax (j + 1)"
      using True by (subst run_end.simps) simp
    have all: "same_from source i (j + 1)"
      using "1.prems"(4) "1.prems"(1) True by (intro same_from_Suc) simp_all
    have a: "i \<le> j + 1" using "1.prems"(1) by simp
    have b: "j + 1 \<le> size' - 1" using True by simp
    have c: "j + 1 \<le> jmax" using True by simp
    from "1.IH" [OF True a b c all]
    have "j + 1 \<le> run_end source size' jmax (j + 1) \<and>
         run_end source size' jmax (j + 1) \<le> size' - 1 \<and>
         run_end source size' jmax (j + 1) \<le> jmax \<and>
         same_from source i (run_end source size' jmax (j + 1))" .
    then show ?thesis unfolding eq by simp
  next
    case False
    then have "run_end source size' jmax j = j" by (subst run_end.simps) auto
    then show ?thesis using "1.prems" by simp
  qed
qed

lemma take_run:
  assumes "i \<le> r" and "r < length source" and "same_from source i r"
  shows "take (r + 1) source = take i source @ replicate ((r - i) + 1) (source ! i)"
proof (rule nth_equalityI)
  show "length (take (r + 1) source)
      = length (take i source @ replicate ((r - i) + 1) (source ! i))"
    using assms(1,2) by simp
next
  fix k assume "k < length (take (r + 1) source)"
  then have k: "k \<le> r" by simp
  show "take (r + 1) source ! k = (take i source @ replicate ((r - i) + 1) (source ! i)) ! k"
  proof (cases "k < i")
    case True
    then show ?thesis using k assms(1,2) by (simp add: nth_append)
  next
    case False
    then have "i \<le> k \<and> k \<le> r" using k by simp
    then have "source ! k = source ! i" using assms(3) unfolding same_from_def by blast
    then show ?thesis using False k assms(1,2) by (simp add: nth_append nth_Cons')
  qed
qed

lemma map_run:
  assumes "same_from source i r" and "i \<le> r"
  shows "map (\<lambda>k. source ! (i + k)) [0..<(r - i) + 1] = replicate ((r - i) + 1) (source ! i)"
proof (rule nth_equalityI)
  show "length (map (\<lambda>k. source ! (i + k)) [0..<(r - i) + 1])
      = length (replicate ((r - i) + 1) (source ! i))"
    by simp
next
  fix k assume "k < length (map (\<lambda>k. source ! (i + k)) [0..<(r - i) + 1])"
  then have k: "k < (r - i) + 1" by simp
  then have "i \<le> i + k \<and> i + k \<le> r" using assms(2) by arith
  then have "source ! (i + k) = source ! i" using assms(1) unfolding same_from_def by blast
  then show "map (\<lambda>k. source ! (i + k)) [0..<(r - i) + 1] ! k
      = replicate ((r - i) + 1) (source ! i) ! k"
    using k by (simp add: nth_Cons' del: upt_Suc)
qed

lemma pool_inv_mono: "pool_inv 254 consumed tb \<Longrightarrow> pool_inv 255 consumed tb"
  unfolding pool_inv_def by auto

lemma encode_from_line:
  assumes "pool_inv 254 (take i source) (target, buffer)"
      and "i \<le> size'" and "size' = length source"
  shows "\<exists>e. encode_from old source size' i buffer target = e @ [RLE_COMMAND, RLE_ENDOFLINE]
             \<and> rle_line e source"
  using assms
proof (induction old source size' i buffer target rule: encode_from.induct)
  case (1 old source size' i buffer target)
  note inv = "1.prems"(1) and le = "1.prems"(2) and sz = "1.prems"(3)
  show ?case
  proof (cases "i < size'")
    case False
    then have i: "take i source = source" using le sz by simp
    have e: "encode_from old source size' i buffer target
        = flush_pool old buffer target @ [RLE_COMMAND, RLE_ENDOFLINE]"
      using False by (subst encode_from.simps) simp
    have "rle_line (flush_pool old buffer target) source"
      using flush_pool_line [OF pool_inv_mono [OF inv]] unfolding i .
    then show ?thesis unfolding e by blast
  next
    case True
    show ?thesis
    proof (cases "i < size' - 1 \<and> source ! i = source ! (i + 1)")
      case run: True
      define j where "j = run_end source size' (254 + i) (i + 1)"
      define tb where "tb = (if (j - i) + 1 > 3 then
                        (flush_pool old buffer target @ [of_nat ((j - i) + 1), source ! i], [])
                      else foldl (pool_byte source i) (target, buffer) [0..<(j - i) + 1])"
      define tb1 where "tb1 = flush_full tb"
      have e: "encode_from old source size' i buffer target
          = encode_from old source size' (j + 1) (snd tb1) (fst tb1)"
        by (subst encode_from.simps, subst if_P [OF True], subst if_P [OF run])
           (simp only: Let_def j_def tb_def tb1_def)
      have s0: "same_from source i i" unfolding same_from_def by auto
      have s1: "same_from source i (i + 1)"
        by (rule same_from_Suc [OF s0]) (use run in simp_all)
      have "i + 1 \<le> run_end source size' (254 + i) (i + 1) \<and>
         run_end source size' (254 + i) (i + 1) \<le> size' - 1 \<and>
         run_end source size' (254 + i) (i + 1) \<le> 254 + i \<and>
         same_from source i (run_end source size' (254 + i) (i + 1))"
        by (rule run_end_run [OF _ _ _ s1]) (use run in simp_all)
      then have j: "i + 1 \<le> j" "j \<le> size' - 1" "j \<le> 254 + i" "same_from source i j"
        unfolding j_def by simp_all
      have jl: "j < length source" using j(2) True sz by simp
      have ij: "i \<le> j" using j(1) by simp
      have tk: "take (j + 1) source = take i source @ replicate ((j - i) + 1) (source ! i)"
        by (rule take_run [OF ij jl j(4)])
      have "pool_inv 255 (take (j + 1) source) tb"
      proof (cases "(j - i) + 1 > 3")
        case long: True
        have n: "0 < (j - i) + 1" "(j - i) + 1 \<le> 255" using j(3) by simp_all
        have t: "tb = (flush_pool old buffer target @ [of_nat ((j - i) + 1), source ! i], [])"
          using long by (simp add: tb_def)
        from inv obtain d where d: "rle_line target d" "d @ buffer = take i source"
            "length buffer < 254"
          by (rule pool_invE)
        have l: "rle_line (flush_pool old buffer target) (take i source)"
          by (rule flush_pool_line [OF pool_inv_mono [OF inv]])
        have "rle_line (flush_pool old buffer target @ [of_nat ((j - i) + 1), source ! i])
                (take i source @ replicate ((j - i) + 1) (source ! i))"
          by (rule rle_line_append [OF l rle_line_run1 [OF n]])
        then show ?thesis unfolding t tk by (rule pool_invI) simp_all
      next
        case short: False
        have t: "tb = foldl (pool_byte source i) (target, buffer) [0..<(j - i) + 1]"
          using short by (simp add: tb_def)
        have "pool_inv 254 (take i source @ map (\<lambda>k. source ! (i + k)) [0..<(j - i) + 1]) tb"
          unfolding t by (rule pool_bytes_inv [OF inv])
        then have "pool_inv 254 (take (j + 1) source) tb"
          unfolding map_run [OF j(4) ij] tk .
        then show ?thesis by (rule pool_inv_mono)
      qed
      then have "pool_inv 254 (take (j + 1) source) tb1"
        unfolding tb1_def by (rule flush_full_inv)
      then have inv1: "pool_inv 254 (take (j + 1) source) (fst tb1, snd tb1)" by simp
      have le1: "j + 1 \<le> size'" using j(2) True by simp
      from "1.IH"(1) [OF True run j_def tb_def tb1_def inv1 le1 sz]
      show ?thesis unfolding e .
    next
      case norun: False
      define tb1 where "tb1 = flush_full (target, buffer @ [source ! i])"
      have e: "encode_from old source size' i buffer target
          = encode_from old source size' (i + 1) (snd tb1) (fst tb1)"
        by (subst encode_from.simps, subst if_P [OF True], subst if_not_P [OF norun])
           (simp only: Let_def tb1_def)
      have tk: "take (i + 1) source = take i source @ [source ! i]"
        using True sz by (simp add: take_Suc_conv_app_nth)
      have "pool_inv 254 (take (i + 1) source) tb1"
        unfolding tb1_def tk by (rule pool_push_inv [OF inv])
      then have inv1: "pool_inv 254 (take (i + 1) source) (fst tb1, snd tb1)" by simp
      have le1: "i + 1 \<le> size'" using True by simp
      from "1.IH"(2) [OF True norun tb1_def inv1 le1 sz]
      show ?thesis unfolding e .
    qed
  qed
qed

lemma RLEEncodeLine_line:
  "\<exists>e. RLEEncodeLine old source (length source) = e @ [RLE_COMMAND, RLE_ENDOFLINE]
       \<and> rle_line e source"
  unfolding RLEEncodeLine_def
  by (rule encode_from_line) (simp_all add: pool_inv_def rle_nil)

subsection \<open>Decoding what Save writes\<close>

lemma rle8_rounds_row:
  assumes d: "drop (pos (r8_io st)) (content (r8_io st))
                = RLEEncodeLine old line (length line) @ rest"
      and b: "r8_bits st = 0"
      and w: "length line \<le> w"
      and y: "int (r8_scanline st) < abs height"
  shows "rle8_rounds (int w) height st =
         rle8_rounds (int w) height
           (st\<lparr>r8_io := (r8_io st)\<lparr>pos := pos (r8_io st)
                                       + length (RLEEncodeLine old line (length line))\<rparr>,
               r8_dib := store_bytes (r8_dib st) (r8_scanline st) 0 line,
               r8_bits := 0,
               r8_scanline := r8_scanline st + 1\<rparr>)"
proof -
  obtain e where e: "RLEEncodeLine old line (length line) = e @ [RLE_COMMAND, RLE_ENDOFLINE]"
      and l: "rle_line e line"
    using RLEEncodeLine_line [of old line] by blast
  define st1 where "st1 = st\<lparr>r8_io := (r8_io st)\<lparr>pos := pos (r8_io st) + length e\<rparr>,
                      r8_dib := store_bytes (r8_dib st) (r8_scanline st) (r8_bits st) line,
                      r8_bits := r8_bits st + length line\<rparr>"
  have d0: "drop (pos (r8_io st)) (content (r8_io st))
              = e @ (RLE_COMMAND # RLE_ENDOFLINE # rest)"
    using d e by simp
  have w0: "r8_bits st + length line \<le> w" using b w by simp
  have s1: "rle8_rounds (int w) height st = rle8_rounds (int w) height st1"
    unfolding st1_def by (rule rle8_rounds_line [OF l d0 w0 y])
  have d1: "drop (pos (r8_io st1)) (content (r8_io st1)) = RLE_COMMAND # RLE_ENDOFLINE # rest"
    using drop_front [OF d0] by (simp add: st1_def)
  have s2: "rle8_rounds (int w) height st1 =
      rle8_rounds (int w) height
        (st1\<lparr>r8_io := (r8_io st1)\<lparr>pos := pos (r8_io st1) + 2\<rparr>,
             r8_bits := 0, r8_scanline := r8_scanline st1 + 1\<rparr>)"
    by (subst rle8_rounds.simps) (simp add: rle8_round_endofline [OF d1])
  have fin: "st1\<lparr>r8_io := (r8_io st1)\<lparr>pos := pos (r8_io st1) + 2\<rparr>,
             r8_bits := 0, r8_scanline := r8_scanline st1 + 1\<rparr>
      = st\<lparr>r8_io := (r8_io st)\<lparr>pos := pos (r8_io st)
                                       + length (RLEEncodeLine old line (length line))\<rparr>,
               r8_dib := store_bytes (r8_dib st) (r8_scanline st) 0 line,
               r8_bits := 0,
               r8_scanline := r8_scanline st + 1\<rparr>"
    by (simp add: st1_def e b)
  show ?thesis unfolding s1 s2 fin ..
qed

lemma rle8_rounds_rows:
  assumes "\<forall>l \<in> set rows. length l \<le> w"
      and "drop (pos (r8_io st)) (content (r8_io st)) = Save_RLE8 old rows @ rest"
      and "r8_bits st = 0"
      and "int (r8_scanline st) + int (length rows) \<le> abs height"
  shows "rle8_rounds (int w) height st =
         (True, st\<lparr>r8_io := (r8_io st)\<lparr>pos := pos (r8_io st) + length (Save_RLE8 old rows)\<rparr>,
                   r8_dib := store_rows (r8_scanline st) rows (r8_dib st),
                   r8_bits := 0,
                   r8_scanline := r8_scanline st + length rows\<rparr>)"
  using assms
proof (induction rows arbitrary: st old)
  case Nil
  have d: "drop (pos (r8_io st)) (content (r8_io st)) = RLE_COMMAND # RLE_ENDOFBITMAP # rest"
    using Nil.prems(2) by simp
  have z: "st\<lparr>r8_bits := 0\<rparr> = st" using Nil.prems(3) by simp
  have "rle8_rounds (int w) height st
      = (True, st\<lparr>r8_io := (r8_io st)\<lparr>pos := pos (r8_io st) + 2\<rparr>\<rparr>)"
    by (subst rle8_rounds.simps) (simp add: rle8_round_endofbitmap [OF d])
  also have "st\<lparr>r8_io := (r8_io st)\<lparr>pos := pos (r8_io st) + 2\<rparr>\<rparr>
      = (st\<lparr>r8_bits := 0\<rparr>)\<lparr>r8_io := (r8_io st)\<lparr>pos := pos (r8_io st) + 2\<rparr>\<rparr>"
    unfolding z ..
  finally show ?case by simp
next
  case (Cons line rows)
  define out where "out = RLEEncodeLine old line (length line)"
  define old1 where "old1 = (\<lambda>i. if i < length out then out ! i else old i)"
  define st1 where "st1 = st\<lparr>r8_io := (r8_io st)\<lparr>pos := pos (r8_io st) + length out\<rparr>,
               r8_dib := store_bytes (r8_dib st) (r8_scanline st) 0 line,
               r8_bits := 0,
               r8_scanline := r8_scanline st + 1\<rparr>"
  have sv: "Save_RLE8 old (line # rows) = out @ Save_RLE8 old1 rows"
    unfolding out_def old1_def by (simp add: Let_def)
  have d: "drop (pos (r8_io st)) (content (r8_io st))
             = RLEEncodeLine old line (length line) @ (Save_RLE8 old1 rows @ rest)"
    using Cons.prems(2) unfolding sv out_def by simp
  have w: "length line \<le> w" using Cons.prems(1) by simp
  have y: "int (r8_scanline st) < abs height" using Cons.prems(4) by simp
  have s1: "rle8_rounds (int w) height st = rle8_rounds (int w) height st1"
    unfolding st1_def out_def by (rule rle8_rounds_row [OF d Cons.prems(3) w y])
  have d1: "drop (pos (r8_io st1)) (content (r8_io st1)) = Save_RLE8 old1 rows @ rest"
    using drop_front [OF d] by (simp add: st1_def out_def)
  have a1: "\<forall>l \<in> set rows. length l \<le> w" using Cons.prems(1) by simp
  have b1: "r8_bits st1 = 0" by (simp add: st1_def)
  have y1: "int (r8_scanline st1) + int (length rows) \<le> abs height"
    using Cons.prems(4) by (simp add: st1_def)
  note ih = Cons.IH [OF a1 d1 b1 y1]
  show ?case unfolding s1 ih sv by (simp add: st1_def add.assoc)
qed

text \<open>Rows no longer than the distance between them do not overlap.\<close>

lemma store_rows_bytes:
  "store_rows y rows m =
     (\<lambda>r x. if y \<le> r \<and> r < y + length rows \<and> x < length (rows ! (r - y))
            then Some (rows ! (r - y) ! x) else m r x)"
proof (induction rows arbitrary: y m)
  case Nil
  show ?case by (intro ext) auto
next
  case (Cons l ls)
  show ?case
    unfolding store_rows.simps Cons.IH
    by (intro ext) (auto simp: store_bytes_def nth_Cons' Suc_diff_le)
qed

lemma LoadPixelDataRLE8_Save:
  assumes "\<forall>l \<in> set rows. length l \<le> w" and "int (length rows) \<le> abs height"
  shows "LoadPixelDataRLE8 \<lparr>content = Save_RLE8 old rows, pos = 0\<rparr> (int w) height =
           (True, \<lparr>r8_io = \<lparr>content = Save_RLE8 old rows, pos = length (Save_RLE8 old rows)\<rparr>,
                  r8_scanline = length rows, r8_bits = 0, r8_dib = bitmap_bytes rows\<rparr>)"
proof -
  let ?st = "\<lparr>r8_io = \<lparr>content = Save_RLE8 old rows, pos = 0\<rparr>, r8_scanline = 0,
              r8_bits = 0, r8_dib = (\<lambda>r i. None)\<rparr>"
  have d: "drop (pos (r8_io ?st)) (content (r8_io ?st)) = Save_RLE8 old rows @ []" by simp
  have y: "int (r8_scanline ?st) + int (length rows) \<le> abs height" using assms(2) by simp
  have m: "store_rows 0 rows (\<lambda>r i. None) = bitmap_bytes rows"
    unfolding store_rows_bytes bitmap_bytes_def by (intro ext) simp
  show ?thesis
    unfolding LoadPixelDataRLE8_def rle8_rounds_rows [OF assms(1) d _ y, simplified]
    by (simp add: m)
qed

subsection \<open>The round trip\<close>

text \<open>
  Claim C6, as amended. For a buffer of 8 bits per pixel, decoding what the byte-oriented
  encoder wrote reproduces the buffer: for rows of \<open>w\<close> pixels of one byte each, encoded by
  RLEEncodeLine one after the other as Save does (whatever the encode buffer held before),
  LoadPixelDataRLE8 with width \<open>w\<close> and the height of the buffer returns TRUE, and the
  memory it has written holds exactly the bytes of the rows, each at its place.
\<close>

theorem LoadPixelDataRLE8_decodes_RLEEncodeLine:
  assumes "\<forall>l \<in> set rows. length l = w" and "abs height = int (length rows)"
  shows "fst (LoadPixelDataRLE8 \<lparr>content = Save_RLE8 old rows, pos = 0\<rparr> (int w) height)
       \<and> r8_dib (snd (LoadPixelDataRLE8 \<lparr>content = Save_RLE8 old rows, pos = 0\<rparr> (int w) height))
           = bitmap_bytes rows"
proof -
  have a: "\<forall>l \<in> set rows. length l \<le> w" using assms(1) by simp
  have b: "int (length rows) \<le> abs height" using assms(2) by simp
  show ?thesis unfolding LoadPixelDataRLE8_Save [OF a b] by simp
qed

theorem LoadPixelDataRLE8_decodes_RLEEncodeLine_witness:
  "fst (LoadPixelDataRLE8
        \<lparr>content = Save_RLE8 (\<lambda>i. 0) [[1, 1, 1, 1, 1], [1, 2, 3, 4, 5]], pos = 0\<rparr> (int 5) 2)
   \<and> r8_dib (snd (LoadPixelDataRLE8
        \<lparr>content = Save_RLE8 (\<lambda>i. 0) [[1, 1, 1, 1, 1], [1, 2, 3, 4, 5]], pos = 0\<rparr> (int 5) 2))
       = bitmap_bytes [[1, 1, 1, 1, 1], [1, 2, 3, 4, 5]]"
  using LoadPixelDataRLE8_decodes_RLEEncodeLine
    [of "[[1, 1, 1, 1, 1], [1, 2, 3, 4, 5]]" 5 2 "\<lambda>i. 0"]
  by simp

text \<open>
  The claim as stated fails at the depths above 8, where a row has more bytes than the
  width counts pixels (Save itself calls the encoder at 8 bits only). The six bytes of two
  24-bit pixels are encoded as one literal block; LoadPixelDataRLE8 with width 2 clamps the
  block to two bytes, takes the four bytes left for two runs that it drops, and returns
  TRUE with two of the six bytes in place.
\<close>

lemma two_rgb_pixels_encoded:
  "Save_RLE8 (\<lambda>i. 0) two_rgb_pixels = [0, 6, 1, 2, 3, 4, 5, 6, 0, 0, 0, 1]"
  by code_simp

theorem RLE8_roundtrip_24bit_counterexample:
  "fst (LoadPixelDataRLE8 \<lparr>content = Save_RLE8 (\<lambda>i. 0) two_rgb_pixels, pos = 0\<rparr> 2 1)
   \<and> map (r8_dib (snd (LoadPixelDataRLE8
               \<lparr>content = Save_RLE8 (\<lambda>i. 0) two_rgb_pixels, pos = 0\<rparr> 2 1)) 0) [0..<6]
       = [Some 1, Some 2, None, None, None, None]
   \<and> map (bitmap_bytes two_rgb_pixels 0) [0..<6]
       = [Some 1, Some 2, Some 3, Some 4, Some 5, Some 6]"
proof -
  let ?c = "[0, 6, 1, 2, 3, 4, 5, 6, 0, 0, 0, 1] :: byte list"
  let ?m = "store_bytes (\<lambda>r i. None) 0 0 [1, 2]"
  let ?st0 = "\<lparr>r8_io = \<lparr>content = ?c, pos = 0\<rparr>, r8_scanline = 0,
               r8_bits = 0, r8_dib = (\<lambda>r i. None)\<rparr>"
  let ?st1 = "\<lparr>r8_io = \<lparr>content = ?c, pos = 4\<rparr>, r8_scanline = 0, r8_bits = 6, r8_dib = ?m\<rparr>"
  let ?st2 = "\<lparr>r8_io = \<lparr>content = ?c, pos = 6\<rparr>, r8_scanline = 0, r8_bits = 6,
               r8_dib = store_bytes ?m 0 6 []\<rparr>"
  let ?st3 = "\<lparr>r8_io = \<lparr>content = ?c, pos = 8\<rparr>, r8_scanline = 0, r8_bits = 6,
               r8_dib = store_bytes (store_bytes ?m 0 6 []) 0 6 []\<rparr>"
  let ?st4 = "\<lparr>r8_io = \<lparr>content = ?c, pos = 10\<rparr>, r8_scanline = 1, r8_bits = 0,
               r8_dib = store_bytes (store_bytes ?m 0 6 []) 0 6 []\<rparr>"
  let ?st5 = "\<lparr>r8_io = \<lparr>content = ?c, pos = 12\<rparr>, r8_scanline = 1, r8_bits = 0,
               r8_dib = store_bytes (store_bytes ?m 0 6 []) 0 6 []\<rparr>"
  note defs = rle8_round_def read_proc_def Let_def rle8_count_def as_unsigned_def
        RLE_COMMAND_def RLE_ENDOFLINE_def RLE_ENDOFBITMAP_def RLE_DELTA_def
  have r1: "rle8_round 2 1 ?st0 = Inr ?st1" by (simp add: defs)
  have r2: "rle8_round 2 1 ?st1 = Inr ?st2" by (simp add: defs)
  have r3: "rle8_round 2 1 ?st2 = Inr ?st3" by (simp add: defs)
  have r4: "rle8_round 2 1 ?st3 = Inr ?st4" by (simp add: defs)
  have r5: "rle8_round 2 1 ?st4 = Inl (True, ?st5)" by (simp add: defs)
  have "rle8_rounds 2 1 ?st0 = rle8_rounds 2 1 ?st1"
    by (subst rle8_rounds.simps) (simp only: r1 sum.case)
  also have "\<dots> = rle8_rounds 2 1 ?st2"
    by (subst rle8_rounds.simps) (simp only: r2 sum.case)
  also have "\<dots> = rle8_rounds 2 1 ?st3"
    by (subst rle8_rounds.simps) (simp only: r3 sum.case)
  also have "\<dots> = rle8_rounds 2 1 ?st4"
    by (subst rle8_rounds.simps) (simp only: r4 sum.case)
  also have "\<dots> = (True, ?st5)"
    by (subst rle8_rounds.simps) (simp only: r5 sum.case)
  finally have l: "LoadPixelDataRLE8 \<lparr>content = Save_RLE8 (\<lambda>i. 0) two_rgb_pixels, pos = 0\<rparr> 2 1
      = (True, ?st5)"
    unfolding LoadPixelDataRLE8_def two_rgb_pixels_encoded .
  have u: "[0..<6] = [0, 1, 2, 3, 4, 5 :: nat]" by (simp add: upt_rec)
  show ?thesis unfolding l u
    by (simp add: store_bytes_def bitmap_bytes_def two_rgb_pixels_def)
qed

subsection \<open>A literal block that runs past the row\<close>

text \<open>
  C5. The count of a literal block is \<open>MIN(status_byte, width - bits)\<close>, and \<open>bits\<close> grows
  by the declared \<open>status_byte\<close>, not by the count: after a block declared longer than the
  row, \<open>width - bits\<close> is negative, and the next literal block asks read_proc for
  \<open>(unsigned)(-1)\<close> bytes at \<open>sline + bits\<close>. For a row of 2 pixels and a bitmap of 1 row,
  the decoder returns FALSE after it has stored the 8 bytes left in the stream at offsets
  3 to 10 of the row.
\<close>

theorem LoadPixelDataRLE8_writes_past_row:
  "fst (LoadPixelDataRLE8 \<lparr>content = overlong_literals, pos = 0\<rparr> 2 1) = False
   \<and> map (r8_dib (snd (LoadPixelDataRLE8 \<lparr>content = overlong_literals, pos = 0\<rparr> 2 1)) 0)
         [0..<12]
       = [Some 0xAA, Some 0xBB, None, Some 1, Some 2, Some 3, Some 4, Some 5, Some 6, Some 7,
          Some 8, None]"
proof -
  let ?st0 = "\<lparr>r8_io = \<lparr>content = overlong_literals, pos = 0\<rparr>, r8_scanline = 0,
               r8_bits = 0, r8_dib = (\<lambda>r i. None)\<rparr>"
  let ?st1 = "\<lparr>r8_io = \<lparr>content = overlong_literals, pos = 5\<rparr>, r8_scanline = 0,
               r8_bits = 3, r8_dib = store_bytes (\<lambda>r i. None) 0 0 [0xAA, 0xBB]\<rparr>"
  let ?st2 = "\<lparr>r8_io = \<lparr>content = overlong_literals, pos = 15\<rparr>, r8_scanline = 0,
               r8_bits = 3,
               r8_dib = store_bytes (store_bytes (\<lambda>r i. None) 0 0 [0xAA, 0xBB]) 0 3
                          [1, 2, 3, 4, 5, 6, 7, 8]\<rparr>"
  have r1: "rle8_round 2 1 ?st0 = Inr ?st1"
    by (simp add: rle8_round_def read_proc_def Let_def rle8_count_def as_unsigned_def
        overlong_literals_def RLE_COMMAND_def RLE_ENDOFLINE_def RLE_ENDOFBITMAP_def
        RLE_DELTA_def)
  have r2: "rle8_round 2 1 ?st1 = Inl (False, ?st2)"
    by (simp add: rle8_round_def read_proc_def Let_def rle8_count_def as_unsigned_def
        overlong_literals_def RLE_COMMAND_def RLE_ENDOFLINE_def RLE_ENDOFBITMAP_def
        RLE_DELTA_def)
  have "rle8_rounds 2 1 ?st0 = rle8_rounds 2 1 ?st1"
    by (subst rle8_rounds.simps) (simp only: r1 sum.case)
  also have "\<dots> = (False, ?st2)"
    by (subst rle8_rounds.simps) (simp only: r2 sum.case)
  finally have l: "LoadPixelDataRLE8 \<lparr>content = overlong_literals, pos = 0\<rparr> 2 1
      = (False, ?st2)"
    unfolding LoadPixelDataRLE8_def .
  have u: "[0..<12] = [0, 1, 2, 3, 4, 5, 6, 7, 8, 9, 10, 11 :: nat]" by (simp add: upt_rec)
  show ?thesis unfolding l u by (simp add: store_bytes_def)
qed

section \<open>The LZW engine: proofs\<close>

lemmas lzw_eval =
  Compress_def Compress_loop.simps Compress_pixel_def emit_prefix_def current_pixel_def
  next_pixel_def CompressStart_def CompressEnd_def grab_bytes.simps full_bytes.simps flush_bytes.simps
  low_byte_def
  Decompress_def Decompress_loop.simps Decompress_calls.simps FillInputBuffer_def
  Initialize_def new_StringTable_def zero_memory_def ClearCompressorTable_def
  ClearDecompressorTable_def MAX_LZW_CODE_def or_shl_def shr_def add_string_def
  advance_code_def first_char_def Let_def

subsection \<open>The bit buffer\<close>

lemma no_high_bit:
  fixes p :: nat
  assumes "p < 2 ^ s" and "s \<le> n"
  shows "\<not> bit p n"
proof -
  have "take_bit s p = p" using assms(1) by (simp add: take_bit_nat_eq_self)
  then have "bit p n = bit (take_bit s p) n" by simp
  also have "\<dots> = (n < s \<and> bit p n)" by (simp add: bit_take_bit_iff)
  finally show ?thesis using assms(2) by simp
qed

lemma or_shifted:
  fixes p :: nat
  assumes "p < 2 ^ s"
  shows "p OR (x * 2 ^ s) = p + x * 2 ^ s"
proof -
  have "p AND push_bit s x = 0"
    by (rule bit_eqI) (auto simp: bit_and_iff bit_push_bit_iff no_high_bit [OF assms])
  then show ?thesis
    using disjunctive_add_eq_or [of p "push_bit s x"] by (simp add: push_bit_eq_mult)
qed

lemma or_shl_add:
  assumes "partial < 2 ^ s" and "x < 2 ^ w" and "s + w \<le> 32"
  shows "or_shl partial x s = partial + x * 2 ^ s"
proof -
  have "x * 2 ^ s < 2 ^ w * 2 ^ s" using assms(2) by simp
  also have "\<dots> = 2 ^ (s + w)" by (simp add: power_add mult.commute)
  also have "\<dots> \<le> (2::nat) ^ 32" using assms(3) by (intro power_increasing) simp_all
  finally have "(x * 2 ^ s) mod 2 ^ 32 = x * 2 ^ s" by simp
  then show ?thesis unfolding or_shl_def using or_shifted [OF assms(1)] by simp
qed

lemma or_shl_lt:
  fixes partial x :: nat
  assumes "partial < 2 ^ s" and "x < 2 ^ w"
  shows "partial + x * 2 ^ s < 2 ^ (s + w)"
proof -
  have "x + 1 \<le> 2 ^ w" using assms(2) by simp
  then have "(x + 1) * 2 ^ s \<le> 2 ^ w * 2 ^ s" by (rule mult_le_mono1)
  then have "x * 2 ^ s + 2 ^ s \<le> 2 ^ (s + w)" by (simp add: power_add mult.commute)
  then show ?thesis using assms(1) by simp
qed

lemma shr_div:
  assumes "partial < 2 ^ s" and "s \<le> 31"
  shows "shr partial k = partial div 2 ^ k"
proof -
  have "(2::nat) ^ s \<le> 2 ^ 31" using assms(2) by (intro power_increasing) simp_all
  then have "partial < 2 ^ 31" using assms(1) by simp
  then show ?thesis by (simp add: shr_def)
qed

lemma and_mask_mod: "p AND (2 ^ w - 1) = p mod 2 ^ w" for p :: nat
  using take_bit_eq_mask [of w p] by (simp add: mask_eq_exp_minus_1 take_bit_eq_mod)

lemma unat_low_byte: "unat (low_byte p) = p mod 256"
  by (simp add: low_byte_def unat_of_nat)

subsection \<open>Bytes and codes as numbers\<close>

lemma bytes_val_append:
  "bytes_val (xs @ ys) = bytes_val xs + 2 ^ (8 * length xs) * bytes_val ys"
  by (induction xs) (simp_all add: algebra_simps power_add)

lemma bytes_val_snoc: "bytes_val (xs @ [b]) = bytes_val xs + 2 ^ (8 * length xs) * unat b"
  by (simp add: bytes_val_append)

lemma pack_append: "pack (xs @ ys) = pack xs + 2 ^ code_bits xs * pack ys"
  by (induction xs) (auto simp: algebra_simps power_add)

lemma bits_append: "code_bits (xs @ ys) = code_bits xs + code_bits ys"
  by (induction xs) auto

lemma drop_one_more:
  assumes "Suc p < length bs"
  shows "bytes_val (drop p bs) = unat (bs ! p) + 256 * (unat (bs ! Suc p) + 256 * bytes_val (drop (Suc (Suc p)) bs))"
    and "bytes_val (drop (Suc p) bs) = unat (bs ! Suc p) + 256 * bytes_val (drop (Suc (Suc p)) bs)"
proof -
  have p: "p < length bs" using assms by simp
  show "bytes_val (drop (Suc p) bs) = unat (bs ! Suc p) + 256 * bytes_val (drop (Suc (Suc p)) bs)"
    using Cons_nth_drop_Suc [OF assms, symmetric] by simp
  then show "bytes_val (drop p bs) = unat (bs ! p) + 256 * (unat (bs ! Suc p) + 256 * bytes_val (drop (Suc (Suc p)) bs))"
    using Cons_nth_drop_Suc [OF p, symmetric] by simp
qed

subsection \<open>The decompressor reads the codes of a stream\<close>

lemma tab_fields:
  assumes "tab st = tab g"
  shows "m_strings st = m_strings g" and "m_nextCode st = m_nextCode g"
    and "m_codeSize st = m_codeSize g" and "m_codeMask st = m_codeMask g"
    and "m_oldCode st = m_oldCode g" and "m_clearCode st = m_clearCode g"
    and "m_endCode st = m_endCode g" and "m_minCodeSize st = m_minCodeSize g"
  using assms by (simp_all add: tab_def)

lemma tab_bits [simp]:
  "tab (st\<lparr>m_partial := p\<rparr>) = tab st"
  "tab (st\<lparr>m_partialSize := s\<rparr>) = tab st"
  "tab (st\<lparr>m_bufferPos := q\<rparr>) = tab st"
  by (simp_all add: tab_def)

lemma tab_add_string:
  assumes "tab st = tab g"
  shows "tab (add_string c st) = tab (add_string c g)"
  using tab_fields [OF assms] by (simp add: tab_def add_string_def)

lemma tab_advance_code:
  assumes "tab st = tab g"
  shows "tab (advance_code c st) = tab (advance_code c g)"
  using tab_fields [OF assms] by (simp add: tab_def advance_code_def)

lemma tab_clear:
  assumes "tab st = tab g"
  shows "tab (ClearDecompressorTable st) = tab (ClearDecompressorTable g)"
  using tab_fields [OF assms] by (simp add: tab_def ClearDecompressorTable_def cong: if_cong)

lemma dec_rel_frame [simp]:
  "dec_rel (add_string c st) V a = dec_rel st V a"
  "dec_rel (advance_code c st) V a = dec_rel st V a"
  "dec_rel (ClearDecompressorTable st) V a = dec_rel st V a"
  by (simp_all add: dec_rel_def add_string_def advance_code_def ClearDecompressorTable_def)

text \<open>One more input byte goes into the bit buffer.\<close>

lemma Decompress_while_exit:
  assumes "m_partialSize st < m_codeSize st"
  shows "Decompress_loop True len st out =
         Decompress_loop False len (st\<lparr>m_bufferPos := m_bufferPos st + 1\<rparr>) out"
  using assms by (subst Decompress_loop.simps) simp

lemma Decompress_for_byte:
  assumes "m_bufferPos st < m_bufferSize st"
  shows "Decompress_loop False len st out =
         Decompress_loop True len
           (st\<lparr>m_partial := or_shl (m_partial st) (unat (m_buffer st ! m_bufferPos st))
                                (m_partialSize st),
               m_partialSize := m_partialSize st + 8\<rparr>) out"
  using assms by (subst Decompress_loop.simps) simp

lemma Decompress_for_exit:
  assumes "\<not> m_bufferPos st < m_bufferSize st"
  shows "Decompress_loop False len st out = Some (True, out, st\<lparr>m_bufferSize := 0\<rparr>)"
  using assms by (subst Decompress_loop.simps) simp

lemma Decompress_fetch:
  assumes "m_partialSize st < m_codeSize st" and "Suc (m_bufferPos st) < m_bufferSize st"
  shows "Decompress_loop True len st out =
         Decompress_loop True len
           (st\<lparr>m_bufferPos := Suc (m_bufferPos st),
               m_partial := or_shl (m_partial st) (unat (m_buffer st ! Suc (m_bufferPos st)))
                              (m_partialSize st),
               m_partialSize := m_partialSize st + 8\<rparr>) out"
  unfolding Decompress_while_exit [OF assms(1)]
  by (subst Decompress_for_byte) (use assms(2) in simp_all)

lemma dec_rel_fetch:
  assumes r: "dec_rel st V avail"
      and ps: "m_partialSize st < m_codeSize st" and cs: "m_codeSize st \<le> 12"
      and more: "Suc (m_bufferPos st) < m_bufferSize st"
  shows "dec_rel (st\<lparr>m_bufferPos := Suc (m_bufferPos st),
               m_partial := or_shl (m_partial st) (unat (m_buffer st ! Suc (m_bufferPos st)))
                              (m_partialSize st),
               m_partialSize := m_partialSize st + 8\<rparr>) V avail"
proof -
  let ?b = "unat (m_buffer st ! Suc (m_bufferPos st))"
  have p: "m_partial st < 2 ^ m_partialSize st" using r by (simp add: dec_rel_def)
  have b: "?b < 2 ^ 8" using unsigned_less [of "m_buffer st ! Suc (m_bufferPos st)", where ?'a = nat] by simp
  have s: "m_partialSize st + 8 \<le> 32" using ps cs by simp
  have o: "or_shl (m_partial st) ?b (m_partialSize st) = m_partial st + ?b * 2 ^ m_partialSize st"
    by (rule or_shl_add [OF p b s])
  have lt: "m_partial st + ?b * 2 ^ m_partialSize st < 2 ^ (m_partialSize st + 8)"
    by (rule or_shl_lt [OF p b])
  have len: "Suc (m_bufferPos st) < length (m_buffer st)" using r more by (simp add: dec_rel_def)
  have d: "bytes_val (drop (Suc (m_bufferPos st)) (m_buffer st))
         = ?b + 256 * bytes_val (drop (Suc (Suc (m_bufferPos st))) (m_buffer st))"
    using Cons_nth_drop_Suc [OF len, symmetric] by simp
  show ?thesis
    using r lt ps cs more unfolding dec_rel_def o d
    by (simp add: power_add algebra_simps)
qed

lemma Decompress_ready:
  assumes "dec_rel st V avail" and "m_codeSize st \<le> avail" and "m_codeSize st \<le> 12"
  shows "\<exists>p s q. dec_rel (st\<lparr>m_partial := p, m_partialSize := s, m_bufferPos := q\<rparr>) V avail \<and>
           m_codeSize st \<le> s \<and>
           Decompress_loop True len st out =
             Decompress_loop True len (st\<lparr>m_partial := p, m_partialSize := s, m_bufferPos := q\<rparr>) out"
  using assms
proof (induction "m_codeSize st - m_partialSize st" arbitrary: st rule: less_induct)
  case less
  show ?case
  proof (cases "m_codeSize st \<le> m_partialSize st")
    case True
    have "st\<lparr>m_partial := m_partial st, m_partialSize := m_partialSize st,
              m_bufferPos := m_bufferPos st\<rparr> = st" by simp
    then show ?thesis using less.prems(1) True by metis
  next
    case False
    then have ps: "m_partialSize st < m_codeSize st" by simp
    have more: "Suc (m_bufferPos st) < m_bufferSize st"
      using less.prems(1,2) ps by (auto simp: dec_rel_def intro: ccontr)
    let ?st1 = "st\<lparr>m_bufferPos := Suc (m_bufferPos st),
               m_partial := or_shl (m_partial st) (unat (m_buffer st ! Suc (m_bufferPos st)))
                              (m_partialSize st),
               m_partialSize := m_partialSize st + 8\<rparr>"
    have r1: "dec_rel ?st1 V avail" by (rule dec_rel_fetch [OF less.prems(1) ps less.prems(3) more])
    have m: "m_codeSize ?st1 - m_partialSize ?st1 < m_codeSize st - m_partialSize st"
      using ps by simp
    have a1: "m_codeSize ?st1 \<le> avail" using less.prems(2) by simp
    have c1: "m_codeSize ?st1 \<le> 12" using less.prems(3) by simp
    from less.hyps [OF m r1 a1 c1]
    obtain p s q where
      n: "dec_rel (?st1\<lparr>m_partial := p, m_partialSize := s, m_bufferPos := q\<rparr>) V avail"
        "m_codeSize ?st1 \<le> s"
        "Decompress_loop True len ?st1 out =
           Decompress_loop True len (?st1\<lparr>m_partial := p, m_partialSize := s, m_bufferPos := q\<rparr>) out"
      by blast
    have e: "?st1\<lparr>m_partial := p, m_partialSize := s, m_bufferPos := q\<rparr>
           = st\<lparr>m_partial := p, m_partialSize := s, m_bufferPos := q\<rparr>" by simp
    have f: "Decompress_loop True len st out = Decompress_loop True len ?st1 out"
      by (rule Decompress_fetch [OF ps more])
    show ?thesis using n f unfolding e by (intro exI [of _ p] exI [of _ s] exI [of _ q]) simp
  qed
qed

text \<open>A code leaves the bit buffer.\<close>

lemma dec_rel_take:
  assumes r: "dec_rel st V avail" and ps: "m_codeSize st \<le> m_partialSize st"
  shows "m_partial st AND (2 ^ m_codeSize st - 1) = V mod 2 ^ m_codeSize st"
    and "shr (m_partial st) (m_codeSize st) = m_partial st div 2 ^ m_codeSize st"
    and "dec_rel (st\<lparr>m_partial := m_partial st div 2 ^ m_codeSize st,
                     m_partialSize := m_partialSize st - m_codeSize st\<rparr>)
           (V div 2 ^ m_codeSize st) (avail - m_codeSize st)"
proof -
  let ?w = "m_codeSize st" and ?s = "m_partialSize st" and ?p = "m_partial st"
  let ?R = "bytes_val (drop (Suc (m_bufferPos st)) (m_buffer st))"
  obtain d where d: "?s = ?w + d" using ps by (auto simp: le_iff_add)
  have V: "V = ?p + 2 ^ ?w * (2 ^ d * ?R)" using r by (simp add: dec_rel_def d power_add)
  have p: "?p < 2 ^ ?w * 2 ^ d" using r by (simp add: dec_rel_def d power_add)
  have s20: "?s < 20" using r by (simp add: dec_rel_def)
  show "?p AND (2 ^ ?w - 1) = V mod 2 ^ ?w" unfolding and_mask_mod V by simp
  have pr: "?p < 2 ^ ?s" using r by (simp add: dec_rel_def)
  show "shr ?p ?w = ?p div 2 ^ ?w" by (rule shr_div [OF pr]) (use s20 in simp)
  have dv: "V div 2 ^ ?w = ?p div 2 ^ ?w + 2 ^ d * ?R" unfolding V by simp
  have lt: "?p div 2 ^ ?w < 2 ^ d"
    using p by (simp add: less_mult_imp_div_less mult.commute)
  show "dec_rel (st\<lparr>m_partial := ?p div 2 ^ ?w, m_partialSize := ?s - ?w\<rparr>)
           (V div 2 ^ ?w) (avail - ?w)"
    using r lt dv unfolding dec_rel_def by (simp add: d)
qed

lemma Decompress_code_end:
  assumes "m_codeSize st \<le> m_partialSize st"
      and "m_partial st AND m_codeMask st = m_endCode st"
  shows "\<exists>st'. Decompress_loop True len st out = Some (True, out, st')"
  using assms by (subst Decompress_loop.simps) (simp add: Let_def)

lemma Decompress_code_clear:
  assumes "m_codeSize st \<le> m_partialSize st"
      and "m_partial st AND m_codeMask st = c"
      and "\<not> (c > m_nextCode st \<or> c = m_endCode st)"
      and "c = m_clearCode st"
  shows "Decompress_loop True len st out =
         Decompress_loop True len
           (ClearDecompressorTable
              (st\<lparr>m_partial := shr (m_partial st) (m_codeSize st),
                  m_partialSize := m_partialSize st - m_codeSize st\<rparr>)) out"
  using assms by (subst Decompress_loop.simps) (simp add: Let_def)

lemma m_strings_add_string_bits:
  "m_strings (add_string c (st\<lparr>m_partial := a, m_partialSize := b\<rparr>)) = m_strings (add_string c st)"
  by (simp add: add_string_def)

lemma Decompress_code_string:
  assumes "m_codeSize st \<le> m_partialSize st"
      and "m_partial st AND m_codeMask st = c"
      and "\<not> (c > m_nextCode st \<or> c = m_endCode st)"
      and "c \<noteq> m_clearCode st"
      and "length out + length (m_strings (add_string c st) c) \<le> len"
  shows "Decompress_loop True len st out =
         Decompress_loop True len
           (advance_code c (add_string c
              (st\<lparr>m_partial := shr (m_partial st) (m_codeSize st),
                  m_partialSize := m_partialSize st - m_codeSize st\<rparr>)))
           (out @ m_strings (add_string c st) c)"
proof -
  have fit: "\<not> len - length out < length (m_strings (add_string c st) c)"
    using assms(5) by simp
  show ?thesis
    using assms(1-4) fit
    by (subst Decompress_loop.simps) (simp add: Let_def m_strings_add_string_bits)
qed

text \<open>After the last code of the data only the end code is left, and no more goes out.\<close>

lemma Decompress_tail:
  assumes "dec_rel st (m_endCode st) avail"
      and "m_endCode st < 2 ^ m_codeSize st"
      and "m_codeMask st = 2 ^ m_codeSize st - 1"
      and "m_codeSize st \<le> 12"
  shows "\<exists>st'. Decompress_loop True len st out = Some (True, out, st')"
  using assms
proof (induction "m_bufferSize st - m_bufferPos st" arbitrary: st avail rule: less_induct)
  case less
  show ?case
  proof (cases "m_codeSize st \<le> m_partialSize st")
    case True
    have "m_partial st AND m_codeMask st = m_endCode st mod 2 ^ m_codeSize st"
      unfolding less.prems(3) by (rule dec_rel_take(1) [OF less.prems(1) True])
    then have "m_partial st AND m_codeMask st = m_endCode st" using less.prems(2) by simp
    then show ?thesis by (rule Decompress_code_end [OF True])
  next
    case False
    then have ps: "m_partialSize st < m_codeSize st" by simp
    show ?thesis
    proof (cases "Suc (m_bufferPos st) < m_bufferSize st")
      case more: True
      let ?st1 = "st\<lparr>m_bufferPos := Suc (m_bufferPos st),
               m_partial := or_shl (m_partial st) (unat (m_buffer st ! Suc (m_bufferPos st)))
                              (m_partialSize st),
               m_partialSize := m_partialSize st + 8\<rparr>"
      have r1: "dec_rel ?st1 (m_endCode ?st1) avail"
        using dec_rel_fetch [OF less.prems(1) ps less.prems(4) more] by simp
      have m: "m_bufferSize ?st1 - m_bufferPos ?st1 < m_bufferSize st - m_bufferPos st"
        using more by simp
      have "\<exists>st'. Decompress_loop True len ?st1 out = Some (True, out, st')"
        by (rule less.hyps [OF m r1]) (use less.prems in simp_all)
      then show ?thesis unfolding Decompress_fetch [OF ps more] .
    next
      case last: False
      have "Decompress_loop True len st out =
            Some (True, out, st\<lparr>m_bufferPos := m_bufferPos st + 1, m_bufferSize := 0\<rparr>)"
        unfolding Decompress_while_exit [OF ps]
        by (subst Decompress_for_exit) (use last in simp_all)
      then show ?thesis by blast
    qed
  qed
qed

text \<open>
  The decompressor on the bytes of a stream of codes that ends with the end code: what
  goes out is what the codes stand for.
\<close>

lemma Decompress_tokens:
  assumes "run_codes g ts = Some (data, g')"
      and "tab st = tab g"
      and "dec_rel st (pack ts + 2 ^ code_bits ts * E) avail"
      and "code_bits ts \<le> avail"
      and "length out + length data \<le> len"
      and "E = m_endCode g'"
      and "m_endCode g' < 2 ^ m_codeSize g'"
      and "m_codeMask g' = 2 ^ m_codeSize g' - 1"
      and "m_codeSize g' \<le> 12"
  shows "\<exists>st'. Decompress_loop True len st out = Some (True, out @ data, st')"
  using assms
proof (induction ts arbitrary: g st avail out data)
  case Nil
  have g: "g' = g" and d: "data = []" using Nil.prems(1) by simp_all
  note f = tab_fields [OF Nil.prems(2)]
  have r: "dec_rel st (m_endCode st) avail"
    using Nil.prems(3) Nil.prems(6) f(7) g by simp
  have "\<exists>st'. Decompress_loop True len st out = Some (True, out, st')"
    by (rule Decompress_tail [OF r]) (use Nil.prems(7,8,9) f g in simp_all)
  then show ?case using d by simp
next
  case (Cons t ts)
  obtain c w where t: "t = (c, w)" by (cases t)
  note f = tab_fields [OF Cons.prems(2)]
  from Cons.prems(1) have guard: "w = m_codeSize g" "m_codeMask g = 2 ^ w - 1" "c < 2 ^ w" "w \<le> 12"
      "0 < w"
    unfolding t by (simp_all split: if_splits)
  from Cons.prems(1) guard obtain s g1 data1 where
    ds: "dec_step c g = Some (s, g1)" and rc: "run_codes g1 ts = Some (data1, g')"
    and dd: "data = s @ data1"
    unfolding t by (auto split: option.splits if_splits)
  let ?V = "pack (t # ts) + 2 ^ code_bits (t # ts) * E"
  have V: "?V = c + 2 ^ w * (pack ts + 2 ^ code_bits ts * E)"
    unfolding t by (simp add: power_add algebra_simps)
  have w_st: "m_codeSize st = w" using f(3) guard(1) by simp
  have av: "m_codeSize st \<le> avail" using Cons.prems(4) w_st unfolding t by simp
  have c12: "m_codeSize st \<le> 12" using w_st guard(4) by simp
  from Decompress_ready [OF Cons.prems(3) av c12, of len out]
  obtain p sz q where
    r: "dec_rel (st\<lparr>m_partial := p, m_partialSize := sz, m_bufferPos := q\<rparr>) ?V avail"
    and ge: "m_codeSize st \<le> sz"
    and lp: "Decompress_loop True len st out =
             Decompress_loop True len (st\<lparr>m_partial := p, m_partialSize := sz, m_bufferPos := q\<rparr>) out"
    by blast
  let ?sr = "st\<lparr>m_partial := p, m_partialSize := sz, m_bufferPos := q\<rparr>"
  have tr: "tab ?sr = tab g" using Cons.prems(2) by simp
  note fr = tab_fields [OF tr]
  have wr: "m_codeSize ?sr = w" using w_st by simp
  have ger: "m_codeSize ?sr \<le> m_partialSize ?sr" using ge by simp
  note tk = dec_rel_take [OF r ger]
  have code: "m_partial ?sr AND m_codeMask ?sr = c"
  proof -
    have "m_partial ?sr AND m_codeMask ?sr = ?V mod 2 ^ w"
      using tk(1) fr(4) guard(2) wr by simp
    also have "\<dots> = c" unfolding V using guard(3) by simp
    finally show ?thesis .
  qed
  let ?s1 = "?sr\<lparr>m_partial := shr (m_partial ?sr) (m_codeSize ?sr),
                  m_partialSize := m_partialSize ?sr - m_codeSize ?sr\<rparr>"
  have r1: "dec_rel ?s1 (pack ts + 2 ^ code_bits ts * E) (avail - w)"
  proof -
    have dv: "?V div 2 ^ w = pack ts + 2 ^ code_bits ts * E" unfolding V using guard(3) by simp
    have sh: "shr p w = p div 2 ^ w" using tk(2) wr by simp
    show ?thesis using tk(3) dv wr by (simp add: sh)
  qed
  have t1: "tab ?s1 = tab g" using Cons.prems(2) by simp
  have av1: "code_bits ts \<le> avail - w" using Cons.prems(4) unfolding t by simp
  have ok: "\<not> (c > m_nextCode ?sr \<or> c = m_endCode ?sr)"
    using ds fr by (auto simp: dec_step_def split: if_splits)
  show ?case
  proof (cases "c = m_clearCode g")
    case True
    have s: "s = []" and g1: "g1 = ClearDecompressorTable g"
      using ds True by (auto simp: dec_step_def split: if_splits)
    have cl: "c = m_clearCode ?sr" using True fr(6) by simp
    have step: "Decompress_loop True len ?sr out =
                Decompress_loop True len (ClearDecompressorTable ?s1) out"
      by (rule Decompress_code_clear [OF ger code ok cl])
    have "\<exists>st'. Decompress_loop True len (ClearDecompressorTable ?s1) out
             = Some (True, out @ data1, st')"
    proof (rule Cons.IH [OF rc [unfolded g1] tab_clear [OF t1] _ av1])
      show "dec_rel (ClearDecompressorTable ?s1) (pack ts + 2 ^ code_bits ts * E) (avail - w)"
        using r1 by simp
      show "length out + length data1 \<le> len" using Cons.prems(5) dd by simp
    qed (use Cons.prems in simp_all)
    then show ?thesis unfolding lp step dd s by simp
  next
    case False
    have s: "s = m_strings (add_string c g) c" and g1: "g1 = advance_code c (add_string c g)"
      using ds False by (auto simp: dec_step_def split: if_splits)
    have ncl: "c \<noteq> m_clearCode ?sr" using False fr(6) by simp
    have ss: "m_strings (add_string c ?sr) = m_strings (add_string c g)"
      using tab_fields(1) [OF tab_add_string [OF tr]] .
    have fit: "length out + length (m_strings (add_string c ?sr) c) \<le> len"
      unfolding ss using Cons.prems(5) dd s by simp
    have step: "Decompress_loop True len ?sr out =
                Decompress_loop True len (advance_code c (add_string c ?s1))
                  (out @ m_strings (add_string c ?sr) c)"
      by (rule Decompress_code_string [OF ger code ok ncl fit])
    have "\<exists>st'. Decompress_loop True len (advance_code c (add_string c ?s1)) (out @ s)
             = Some (True, (out @ s) @ data1, st')"
    proof (rule Cons.IH [OF rc [unfolded g1] tab_advance_code [OF tab_add_string [OF t1]] _ av1])
      show "dec_rel (advance_code c (add_string c ?s1)) (pack ts + 2 ^ code_bits ts * E) (avail - w)"
        using r1 by simp
      show "length (out @ s) + length data1 \<le> len" using Cons.prems(5) dd by simp
    qed (use Cons.prems in simp_all)
    then show ?thesis unfolding lp step dd ss s by simp
  qed
qed

lemma Decompress_stream:
  assumes rc: "run_codes g ts = Some (data, g')"
      and tb: "tab st = tab g"
      and st: "m_bufferSize st = length (m_buffer st)" "m_bufferPos st = 0" "m_partial st = 0"
              "m_partialSize st = 0" "\<not> m_done st" "m_buffer st \<noteq> []"
      and val: "bytes_val (m_buffer st) = pack ts + 2 ^ code_bits ts * E"
      and av: "code_bits ts \<le> 8 * length (m_buffer st)"
      and room: "length data \<le> len"
      and fin: "E = m_endCode g'" "m_endCode g' < 2 ^ m_codeSize g'"
               "m_codeMask g' = 2 ^ m_codeSize g' - 1" "m_codeSize g' \<le> 12"
  shows "\<exists>st'. Decompress len st = Some (True, data, st')"
proof -
  obtain b bs where B: "m_buffer st = b # bs" using st(6) by (cases "m_buffer st") auto
  let ?s1 = "st\<lparr>m_partial := or_shl (m_partial st) (unat (m_buffer st ! m_bufferPos st))
                                (m_partialSize st),
               m_partialSize := m_partialSize st + 8\<rparr>"
  have pos: "m_bufferPos st < m_bufferSize st" using st B by simp
  have b8: "unat b < 2 ^ 8" using unsigned_less [of b, where ?'a = nat] by simp
  have o: "or_shl 0 (unat b) 0 = unat b"
    using or_shl_add [of 0 0 "unat b" 8] b8 by simp
  have r: "dec_rel ?s1 (pack ts + 2 ^ code_bits ts * E) (8 * length (m_buffer st))"
    using st B val b8 by (simp add: dec_rel_def o)
  have t1: "tab ?s1 = tab g" using tb by simp
  have "\<exists>st'. Decompress_loop True len ?s1 [] = Some (True, [] @ data, st')"
    by (rule Decompress_tokens [OF rc t1 r av _ fin]) (use room in simp)
  then show ?thesis
    using st(1,5,6) unfolding Decompress_def Decompress_for_byte [OF pos] by simp
qed

subsection \<open>Bytes leave the compressor's bit buffer\<close>

lemma byte_out:
  "bytes_val (out @ [low_byte p]) + 2 ^ (8 * length (out @ [low_byte p])) * (p div 2 ^ 8)
     = bytes_val out + 2 ^ (8 * length out) * p"
proof -
  have "p = p mod 256 + 256 * (p div 256)" by simp
  then have "2 ^ (8 * length out) * p
      = 2 ^ (8 * length out) * (p mod 256) + 2 ^ (8 * length out) * (256 * (p div 256))"
    by (metis distrib_left)
  then show ?thesis by (simp add: bytes_val_snoc unat_low_byte power_add algebra_simps)
qed

lemma div_256_lt:
  fixes p :: nat
  assumes "p < 2 ^ s" and "8 \<le> s"
  shows "p div 2 ^ 8 < 2 ^ (s - 8)"
proof -
  obtain d where d: "s = 8 + d" using assms(2) by (auto simp: le_iff_add)
  have "p < 2 ^ 8 * 2 ^ d" using assms(1) by (simp add: d power_add)
  then show ?thesis by (simp add: d less_mult_imp_div_less mult.commute)
qed

lemma grab_bytes_result:
  assumes "grab_bytes len (p, s, out) = (p', s', out')"
      and "p < 2 ^ s" and "s \<le> 31" and "length out + s div 8 \<le> len"
  shows "s' < 8 \<and> p' < 2 ^ s' \<and>
         bytes_val out' + 2 ^ (8 * length out') * p' = bytes_val out + 2 ^ (8 * length out) * p \<and>
         8 * length out' + s' = 8 * length out + s"
  using assms
proof (induction len "(p, s, out)" arbitrary: p s out rule: grab_bytes.induct)
  case (1 len p s out)
  show ?case
  proof (cases "8 \<le> s")
    case True
    then have "1 \<le> s div 8" by (simp add: Suc_le_eq div_greater_zero_iff)
    then have room: "length out < len" using "1.prems"(4) by simp
    have sh: "shr p 8 = p div 2 ^ 8" by (rule shr_div [OF "1.prems"(2,3)])
    have g: "grab_bytes len (p div 2 ^ 8, s - 8, out @ [low_byte p]) = (p', s', out')"
      using "1.prems"(1) True room by (subst (asm) grab_bytes.simps) (simp add: sh)
    have lt: "p div 2 ^ 8 < 2 ^ (s - 8)" by (rule div_256_lt [OF "1.prems"(2) True])
    have r2: "length (out @ [low_byte p]) + (s - 8) div 8 \<le> len"
    proof -
      have "s div 8 = Suc ((s - 8) div 8)" using True by (simp add: le_div_geq)
      then show ?thesis using "1.prems"(4) by simp
    qed
    have c: "8 \<le> s \<and> length out < len" using True room by simp
    from "1.hyps" [OF c, unfolded sh, OF g lt _ r2] "1.prems"(3) True
    show ?thesis unfolding byte_out by simp
  next
    case False
    then have "grab_bytes len (p, s, out) = (p, s, out)"
      by (subst grab_bytes.simps) simp
    then show ?thesis using "1.prems" False by simp
  qed
qed

lemma full_bytes_result:
  assumes "full_bytes (p, s, out) = (p', s', out')" and "p < 2 ^ s" and "s \<le> 31"
  shows "s' < 8 \<and> p' < 2 ^ s' \<and>
         bytes_val out' + 2 ^ (8 * length out') * p' = bytes_val out + 2 ^ (8 * length out) * p \<and>
         8 * length out' + s' = 8 * length out + s"
  using assms
proof (induction "(p, s, out)" arbitrary: p s out rule: full_bytes.induct)
  case (1 p s out)
  show ?case
  proof (cases "8 \<le> s")
    case True
    have sh: "shr p 8 = p div 2 ^ 8" by (rule shr_div [OF "1.prems"(2,3)])
    have g: "full_bytes (p div 2 ^ 8, s - 8, out @ [low_byte p]) = (p', s', out')"
      using "1.prems"(1) True by (subst (asm) full_bytes.simps) (simp add: sh)
    have lt: "p div 2 ^ 8 < 2 ^ (s - 8)" by (rule div_256_lt [OF "1.prems"(2) True])
    from "1.hyps" [OF True, unfolded sh, OF g lt] "1.prems"(3) True
    show ?thesis unfolding byte_out by simp
  next
    case False
    then have "full_bytes (p, s, out) = (p, s, out)"
      by (subst full_bytes.simps) simp
    then show ?thesis using "1.prems" False by simp
  qed
qed

lemma flush_bytes_result:
  assumes "flush_bytes (p, s, out) = (p', s', out')" and "p < 2 ^ s" and "s \<le> 31"
  shows "bytes_val out' = bytes_val out + 2 ^ (8 * length out) * p \<and>
         8 * length out + s \<le> 8 * length out'"
  using assms
proof (induction "(p, s, out)" arbitrary: p s out rule: flush_bytes.induct)
  case (1 p s out)
  show ?case
  proof (cases "0 < s")
    case True
    have sh: "shr p 8 = p div 2 ^ 8" by (rule shr_div [OF "1.prems"(2,3)])
    have g: "flush_bytes (p div 2 ^ 8, s - 8, out @ [low_byte p]) = (p', s', out')"
      using "1.prems"(1) True by (subst (asm) flush_bytes.simps) (simp add: sh)
    have lt: "p div 2 ^ 8 < 2 ^ (s - 8)"
    proof (cases "8 \<le> s")
      case True
      then show ?thesis by (rule div_256_lt [OF "1.prems"(2)])
    next
      case False
      then have "(2::nat) ^ s \<le> 2 ^ 8" by (intro power_increasing) simp_all
      then have "p < 2 ^ 8" using "1.prems"(2) by simp
      then show ?thesis by simp
    qed
    have s31: "s - 8 \<le> 31" using "1.prems"(3) by simp
    from "1.hyps" [OF True, unfolded sh, OF g lt s31]
    show ?thesis unfolding byte_out by auto
  next
    case False
    then have "flush_bytes (p, s, out) = (p, s, out)"
      by (subst flush_bytes.simps) simp
    then show ?thesis using "1.prems" False by simp
  qed
qed

subsection \<open>The codes the compressor writes, read by the decompressor\<close>

lemma run_codes_append:
  "run_codes g (ts @ us) =
     (case run_codes g ts of
        None \<Rightarrow> None
      | Some (d, g1) \<Rightarrow>
          (case run_codes g1 us of None \<Rightarrow> None | Some (d', g2) \<Rightarrow> Some (d @ d', g2)))"
proof (induction ts arbitrary: g)
  case Nil
  show ?case by (simp split: option.splits)
next
  case (Cons t ts)
  obtain c w where t: "t = (c, w)" by (cases t)
  show ?case unfolding t by (auto simp: Cons.IH split: option.splits)
qed

lemma dec_step_pending:
  assumes nx: "m_oldCode g \<noteq> MAX_LZW_CODE \<Longrightarrow> m_nextCode g < MAX_LZW_CODE"
      and le: "p \<le> m_nextCode g" and ne: "p \<noteq> m_endCode g" and nc: "p \<noteq> m_clearCode g"
      and s: "pending_table g x p \<noteq> []" "hd (pending_table g x p) = x"
      and o: "m_oldCode g \<noteq> MAX_LZW_CODE \<Longrightarrow> m_strings g (m_oldCode g) \<noteq> []"
  shows "dec_step p g =
           Some (pending_table g x p, advance_code p (g\<lparr>m_strings := pending_table g x\<rparr>))"
proof -
  have a: "add_string p g = g\<lparr>m_strings := pending_table g x\<rparr>"
  proof (cases "m_oldCode g = MAX_LZW_CODE")
    case True
    then show ?thesis by (simp add: add_string_def pending_table_def)
  next
    case False
    have fc: "first_char (m_strings g (if p = m_nextCode g then m_oldCode g else p)) = x"
    proof (cases "p = m_nextCode g")
      case True
      have "hd (m_strings g (m_oldCode g) @ [x]) = x"
        using s(2) True False by (simp add: pending_table_def)
      then have "hd (m_strings g (m_oldCode g)) = x" using o [OF False] by simp
      then show ?thesis using True o [OF False] by (simp add: first_char_def)
    next
      case ne: False
      have "pending_table g x p = m_strings g p" using ne by (simp add: pending_table_def)
      then show ?thesis using s ne by (simp add: first_char_def)
    qed
    show ?thesis
      using False nx [OF False] fc by (simp add: add_string_def pending_table_def)
  qed
  show ?thesis
    using le ne nc unfolding dec_step_def a by simp
qed

lemma mask_or_next: "(2 ^ w - 1) OR (2 ^ w) = 2 ^ (w + 1) - (1::nat)"
proof -
  have "(2 ^ w - 1) OR (1 * 2 ^ w) = (2 ^ w - 1) + 1 * (2::nat) ^ w"
    by (rule or_shifted) simp
  then show ?thesis by simp
qed

lemma and_mask_zero_iff:
  fixes N :: nat
  assumes "0 < N" and "N \<le> 2 ^ w"
  shows "(N AND (2 ^ w - 1) = 0) = (N = 2 ^ w)"
proof -
  have "(N mod 2 ^ w = 0) = (N = 2 ^ w)"
  proof (cases "N = 2 ^ w")
    case True
    then show ?thesis by simp
  next
    case False
    then have "N < 2 ^ w" using assms(2) by simp
    then show ?thesis using assms(1) False by simp
  qed
  then show ?thesis unfolding and_mask_mod .
qed

text \<open>
  The decompressor on the code of the compressor's prefix: the string of the prefix goes
  out, and the decompressor now has the strings that the compressor had.
\<close>

lemma ghost_emit:
  assumes sy: "enc_sync n st g" and tb: "enc_tab S n i st g dout" and i: "i \<le> length S"
      and n2: "2 \<le> n"
  defines "T \<equiv> pending_table g (S ! length dout)"
  defines "g1 \<equiv> advance_code (m_prefix st) (g\<lparr>m_strings := T\<rparr>)"
  shows "run_codes g [(m_prefix st, m_codeSize st)] = Some (T (m_prefix st), g1)"
    and "m_strings g1 = T" and "m_oldCode g1 = m_prefix st"
    and "m_nextCode g1 = m_nextCode st"
    and "m_codeSize g1 = (if m_nextCode st = 2 ^ m_codeSize st then m_codeSize st + 1
                          else m_codeSize st)"
    and "m_codeMask g1 = 2 ^ m_codeSize g1 - 1"
    and "m_minCodeSize g1 = n" and "m_clearCode g1 = 2 ^ n" and "m_endCode g1 = 2 ^ n + 1"
    and "m_prefix st < m_nextCode st"
proof -
  let ?p = "m_prefix st" and ?N = "m_nextCode st" and ?w = "m_codeSize st"
  note s = sy [unfolded enc_sync_def]
  note t = tb [unfolded enc_tab_def, folded T_def]
  have w: "?w = m_codeSize g" using s by simp
  have pn: "2 ^ n < (2::nat) ^ ?w" using s by (simp add: w)
  have Nb: "2 ^ n + 2 \<le> ?N" using s by (auto split: if_splits)
  show pN: "?p < ?N" using t Nb by auto
  have pw: "?p < 2 ^ ?w" using pN s by (simp add: w)
  have ple: "?p \<le> m_nextCode g" using t s by (auto split: if_splits)
  have pne: "?p \<noteq> m_endCode g" "?p \<noteq> m_clearCode g" using t s by auto
  have nx: "m_oldCode g \<noteq> MAX_LZW_CODE \<Longrightarrow> m_nextCode g < MAX_LZW_CODE" using s by simp
  have ne: "T ?p \<noteq> []" using t by simp
  have len: "length dout < i"
  proof -
    have "length (dout @ T ?p) = length (take i S)" using t by simp
    then show ?thesis using ne i by (cases "T ?p") auto
  qed
  have hd: "hd (T ?p) = S ! length dout"
  proof -
    have "(dout @ T ?p) ! length dout = take i S ! length dout" using t by simp
    then show ?thesis using ne len by (simp add: nth_append hd_conv_nth)
  qed
  have o: "m_oldCode g \<noteq> MAX_LZW_CODE \<Longrightarrow> m_strings g (m_oldCode g) \<noteq> []" using s by simp
  have ds: "dec_step ?p g = Some (T ?p, g1)"
    unfolding T_def g1_def
    by (rule dec_step_pending [OF nx ple pne ne [unfolded T_def] hd [unfolded T_def] o])
  have guard: "?w = m_codeSize g \<and> m_codeMask g = 2 ^ ?w - 1 \<and> ?p < 2 ^ ?w \<and> 0 < ?w \<and> ?w \<le> 12"
    using s pw by (simp add: w)
  show "run_codes g [(?p, ?w)] = Some (T ?p, g1)"
    using guard ds by auto
  show "m_strings g1 = T" by (simp add: g1_def advance_code_def)
  show "m_oldCode g1 = ?p" by (simp add: g1_def advance_code_def)
  show "m_minCodeSize g1 = n" "m_clearCode g1 = 2 ^ n" "m_endCode g1 = 2 ^ n + 1"
    using s by (simp_all add: g1_def advance_code_def)
  have N4: "?N < MAX_LZW_CODE" using s by simp
  show "m_nextCode g1 = ?N"
    using s N4 by (auto simp: g1_def advance_code_def split: if_splits)
  have Npos: "0 < ?N" using Nb by simp
  have Nle: "?N \<le> 2 ^ ?w" using s by (simp add: w)
  have z: "(?N AND (2 ^ ?w - 1) = 0) = (?N = 2 ^ ?w)" by (rule and_mask_zero_iff [OF Npos Nle])
  have first: "m_oldCode g = MAX_LZW_CODE \<Longrightarrow> ?N \<noteq> 2 ^ ?w"
  proof -
    assume a: "m_oldCode g = MAX_LZW_CODE"
    then have "?N = 2 ^ n + 2" "?w = n + 1" using s by (simp_all add: w)
    moreover have "(2::nat) ^ n + 2 < 2 ^ (n + 1)"
    proof -
      have "(2::nat) ^ 2 \<le> 2 ^ n" using n2 by (intro power_increasing) simp_all
      then show ?thesis by simp
    qed
    ultimately show ?thesis by simp
  qed
  show cs: "m_codeSize g1 = (if ?N = 2 ^ ?w then ?w + 1 else ?w)"
  proof (cases "m_oldCode g = MAX_LZW_CODE")
    case True
    then show ?thesis using first [OF True] s by (simp add: g1_def advance_code_def w)
  next
    case False
    have e: "Suc (m_nextCode g) = ?N" using s False by simp
    show ?thesis
      using False s N4 z e unfolding g1_def advance_code_def
      by (auto simp: w)
  qed
  show "m_codeMask g1 = 2 ^ m_codeSize g1 - 1"
  proof (cases "m_oldCode g = MAX_LZW_CODE")
    case True
    then show ?thesis using first [OF True] s unfolding cs by (simp add: g1_def advance_code_def w)
  next
    case False
    have e: "Suc (m_nextCode g) = ?N" using s False by simp
    show ?thesis
      unfolding cs
      using False s N4 z e mask_or_next [of ?w] unfolding g1_def advance_code_def
      by (auto simp: w)
  qed
qed

subsection \<open>One pixel through the compressor\<close>

lemma pixel_byte:
  fixes x :: nat
  assumes "x < 256"
  shows "(drop_bit 0 x AND (2 ^ 8 - 1)) AND 0xFF = x"
proof -
  have "x AND (2 ^ 8 - 1) = x" unfolding and_mask_mod using assms by simp
  then show ?thesis by simp
qed

lemma prefix_key:
  fixes p :: nat
  assumes "p < 4096" and "ch < 256"
  shows "((p * 2 ^ 8) AND 0xFFF00) + ch = p * 256 + ch"
    and "(p * 256 + ch) div 256 = p" and "(p * 256 + ch) mod 256 = ch"
proof -
  have "p AND (2 ^ 12 - 1) = p" unfolding and_mask_mod using assms(1) by simp
  then have "push_bit 8 (p AND 4095) = push_bit 8 p" by simp
  then have "push_bit 8 p AND push_bit 8 4095 = push_bit 8 p" by (simp only: push_bit_and)
  then show "((p * 2 ^ 8) AND 0xFFF00) + ch = p * 256 + ch"
    by (simp add: push_bit_eq_mult)
  show "(p * 256 + ch) div 256 = p" using assms(2) by simp
  show "(p * 256 + ch) mod 256 = ch" using assms(2) by simp
qed

lemma emit_prefix_eq:
  assumes "grab_bytes len (or_shl (m_partial st) (m_prefix st) (m_partialSize st),
                          m_partialSize st + m_codeSize st, out) = (pa, sa, oa)"
  defines "w1 \<equiv> (if m_nextCode st = 2 ^ m_codeSize st then m_codeSize st + 1 else m_codeSize st)"
  shows "emit_prefix len key ch (st, out) =
          ((if m_nextCode st + 1 = MAX_LZW_CODE then
              st\<lparr>m_partial := or_shl pa (m_clearCode st) sa, m_partialSize := sa + w1,
                 m_strmap := (\<lambda>i. - 1), m_nextCode := m_endCode st + 1, m_prefix := ch,
                 m_codeSize := m_minCodeSize st + 1\<rparr>
            else
              st\<lparr>m_partial := pa, m_partialSize := sa,
                 m_strmap := (m_strmap st)(key := int (m_nextCode st)),
                 m_codeSize := w1, m_nextCode := m_nextCode st + 1, m_prefix := ch\<rparr>), oa)"
  unfolding emit_prefix_def w1_def
  by (simp add: assms(1) Let_def ClearCompressorTable_def)

lemma of_nat_unat_byte: "of_nat (unat x) = x" for x :: byte
  by simp

lemma prefix_below_max:
  assumes "enc_sync n st g" and "enc_tab S n i st g dout" and "n \<le> 11"
  shows "m_prefix st < 4096"
proof -
  have "(2::nat) ^ n \<le> 2 ^ 11" using assms(3) by (intro power_increasing) simp_all
  then show ?thesis
    using assms(1,2) by (auto simp: enc_sync_def enc_tab_def MAX_LZW_CODE_def)
qed

text \<open>The pixel extends the prefix to a string of the table.\<close>

lemma enc_hit:
  assumes ctl: "enc_ctl S n i st" and bt: "enc_bits i st out ts" and sy: "enc_sync n st g"
      and tb: "enc_tab S n i st g dout" and i: "i < length S" and n: "n \<le> 11"
      and key: "key = m_prefix st * 256 + unat (S ! i)"
      and hit: "0 < m_strmap st key"
  defines "st' \<equiv> st\<lparr>m_prefix := nat (m_strmap st key), m_bufferPos := m_bufferPos st + 1,
                      m_bufferShift := 8 - int (m_bpp st)\<rparr>"
  shows "enc_ctl S n (Suc i) st'" and "enc_bits (Suc i) st' out ts" and "enc_sync n st' g"
    and "enc_tab S n (Suc i) st' g dout"
proof -
  let ?T = "pending_table g (S ! length dout)"
  show "enc_ctl S n (Suc i) st'" using ctl by (simp add: enc_ctl_def st'_def)
  show "enc_bits (Suc i) st' out ts" using bt by (simp add: enc_bits_def st'_def)
  show "enc_sync n st' g" using sy by (simp add: enc_sync_def st'_def)
  have p: "m_prefix st < 4096" by (rule prefix_below_max [OF sy tb n])
  have ch: "unat (S ! i) < 256" using unsigned_less [of "S ! i", where ?'a = nat] by simp
  have kd: "key div 256 = m_prefix st" and km: "key mod 256 = unat (S ! i)"
    unfolding key using prefix_key(2,3) [OF p ch] by simp_all
  note t = tb [unfolded enc_tab_def]
  from t hit have e: "2 ^ n + 1 < nat (m_strmap st key)" "nat (m_strmap st key) < m_nextCode st"
      "?T (nat (m_strmap st key)) = ?T (m_prefix st) @ [S ! i]"
    unfolding kd [symmetric] using km by (auto simp: kd)
  have tk: "take (Suc i) S = take i S @ [S ! i]" using i by (simp add: take_Suc_conv_app_nth)
  have "dout @ ?T (nat (m_strmap st key)) = take (Suc i) S"
    unfolding e(3) tk using t by simp
  then show "enc_tab S n (Suc i) st' g dout"
    using t e unfolding enc_tab_def st'_def by simp
qed

text \<open>
  The pixel does not extend the prefix: the code of the prefix is written, and the
  decompressor that reads it is again one string behind the compressor.
\<close>

lemma pow_less_4096:
  fixes w :: nat
  assumes "2 ^ w < (4096::nat)"
  shows "w < 12"
proof -
  have "(2::nat) ^ w < 2 ^ 12" using assms by simp
  then show ?thesis by (simp only: power_strict_increasing_iff)
qed

lemma enc_miss:
  assumes ctl: "enc_ctl S n i st" and bt: "enc_bits i st out ts" and sy: "enc_sync n st g"
      and tb: "enc_tab S n i st g dout" and rc: "run_codes g0 ts = Some (dout, g)"
      and i: "i < length S" and n2: "2 \<le> n" and n11: "n \<le> 11"
      and px: "unat (S ! i) < 2 ^ n"
      and key: "key = m_prefix st * 256 + unat (S ! i)"
      and miss: "\<not> 0 < m_strmap st key"
      and room: "3 * length S \<le> len"
  shows "\<exists>st1 out1 ts1 g1 dout1.
           emit_prefix len key (unat (S ! i)) (st, out) = (st1, out1) \<and> length out1 < len \<and>
           enc_ctl S n i st1 \<and> enc_bits (Suc i) st1 out1 ts1 \<and> enc_sync n st1 g1 \<and>
           enc_tab S n (Suc i) st1 g1 dout1 \<and> run_codes g0 ts1 = Some (dout1, g1)"
proof -
  let ?p = "m_prefix st" and ?N = "m_nextCode st" and ?w = "m_codeSize st"
  let ?x = "S ! i" and ?ch = "unat (S ! i)"
  define T where "T = pending_table g (S ! length dout)"
  define g1 where "g1 = advance_code ?p (g\<lparr>m_strings := T\<rparr>)"
  define w1 where "w1 = (if ?N = 2 ^ ?w then ?w + 1 else ?w)"
  have ile: "i \<le> length S" using i by simp
  note G = ghost_emit [OF sy tb ile n2, folded T_def, folded g1_def, folded w1_def]
  note s = sy [unfolded enc_sync_def]
  note t = tb [unfolded enc_tab_def, folded T_def]
  note b = bt [unfolded enc_bits_def]
  have w: "?w = m_codeSize g" using s by simp
  have nw: "n < ?w" and w12: "?w \<le> 12" using s by (simp_all add: w)
  have N4: "?N < 4096" using s by (simp add: MAX_LZW_CODE_def)
  have Nle: "?N \<le> 2 ^ ?w" using s by (simp add: w)
  have Nb: "2 ^ n + 2 \<le> ?N" using s by (auto split: if_splits)
  have pN: "?p < ?N" by (rule G(10))
  have pw: "?p < 2 ^ ?w" using pN Nle by simp
  have p4: "?p < 4096" using pN N4 by simp
  have ch: "?ch < 256" using unsigned_less [of "S ! i", where ?'a = nat] by simp
  have kd: "key div 256 = ?p" and km: "key mod 256 = ?ch"
    unfolding key using prefix_key(2,3) [OF p4 ch] by simp_all
  have w1: "m_codeSize g1 = w1" using G(5) by simp
  have nw1: "n < w1" using nw by (simp add: w1_def)
  have w1_12: "w1 \<le> 12"
  proof (cases "?N = 2 ^ ?w")
    case True
    then have "?w < 12" using N4 pow_less_4096 [of ?w] by simp
    then show ?thesis using True by (simp add: w1_def)
  next
    case False
    then show ?thesis using w12 by (simp add: w1_def)
  qed
  have N1le: "?N + 1 \<le> 2 ^ w1"
  proof (cases "?N = 2 ^ ?w")
    case True
    then show ?thesis by (simp add: w1_def)
  next
    case False
    then show ?thesis using Nle by (simp add: w1_def)
  qed
  (* the bits *)
  have pl: "m_partial st < 2 ^ m_partialSize st" and ps20: "m_partialSize st < 20" using b by simp_all
  have sw: "m_partialSize st + ?w \<le> 32" using ps20 w12 by simp
  define P1 where "P1 = or_shl (m_partial st) ?p (m_partialSize st)"
  have P1: "P1 = m_partial st + ?p * 2 ^ m_partialSize st"
    unfolding P1_def by (rule or_shl_add [OF pl pw sw])
  have P1lt: "P1 < 2 ^ (m_partialSize st + ?w)" unfolding P1 by (rule or_shl_lt [OF pl pw])
  obtain pa sa oa where gb: "grab_bytes len (P1, m_partialSize st + ?w, out) = (pa, sa, oa)"
    by (cases "grab_bytes len (P1, m_partialSize st + ?w, out)")
  have tot: "8 * length out + (m_partialSize st + ?w) \<le> 24 * i + 12" using b w12 by simp
  have tot2: "24 * i + 12 < 24 * length S" using i by simp
  have rm: "length out + (m_partialSize st + ?w) div 8 \<le> len"
  proof -
    have "length out + (m_partialSize st + ?w) div 8
        = (8 * length out + (m_partialSize st + ?w)) div 8" by simp
    also have "\<dots> \<le> (24 * length S) div 8" using tot tot2 by (intro div_le_mono) simp
    also have "\<dots> = 3 * length S" by simp
    finally show ?thesis using room by simp
  qed
  have s31: "m_partialSize st + ?w \<le> 31" using ps20 w12 by simp
  note gr = grab_bytes_result [OF gb P1lt s31 rm]
  have sa8: "sa < 8" and pal: "pa < 2 ^ sa" using gr by simp_all
  have val: "bytes_val oa + 2 ^ (8 * length oa) * pa = bytes_val out + 2 ^ (8 * length out) * P1"
    using gr by simp
  have cnt: "8 * length oa + sa = 8 * length out + (m_partialSize st + ?w)" using gr by simp
  have oalen: "length oa < len"
  proof -
    have "8 * length oa < 24 * length S" using cnt tot tot2 by simp
    then show ?thesis using room by simp
  qed
  define tsa where "tsa = ts @ [(?p, ?w)]"
  have pka: "pack tsa = bytes_val oa + 2 ^ (8 * length oa) * pa"
    unfolding val tsa_def pack_append P1 using b by (simp add: power_add algebra_simps)
  have bta: "code_bits tsa = 8 * length oa + sa"
    unfolding tsa_def bits_append cnt using b by simp
  have bia: "code_bits tsa \<le> 24 * i + 12" unfolding bta cnt using tot by simp
  (* the decompressor *)
  define dout1 where "dout1 = dout @ T ?p"
  have rca: "run_codes g0 tsa = Some (dout1, g1)"
    unfolding tsa_def run_codes_append rc dout1_def using G(1) by simp
  have d1: "dout1 = take i S" unfolding dout1_def using t by simp
  have ld1: "length dout1 = i" unfolding d1 using i by simp
  have tk: "take (Suc i) S = dout1 @ [?x]" unfolding d1 using i by (simp add: take_Suc_conv_app_nth)
  have lit: "\<And>c. c < 2 ^ n \<Longrightarrow> T c = [of_nat c]"
  proof -
    fix c :: nat assume c: "c < 2 ^ n"
    have "c \<noteq> m_nextCode g" using s c by simp
    then have "T c = m_strings g c" by (simp add: T_def pending_table_def)
    then show "T c = [of_nat c]" using s c by simp
  qed
  have emit: "emit_prefix len key ?ch (st, out) =
          ((if ?N + 1 = MAX_LZW_CODE then
              st\<lparr>m_partial := or_shl pa (m_clearCode st) sa, m_partialSize := sa + w1,
                 m_strmap := (\<lambda>i. - 1), m_nextCode := m_endCode st + 1, m_prefix := ?ch,
                 m_codeSize := m_minCodeSize st + 1\<rparr>
            else
              st\<lparr>m_partial := pa, m_partialSize := sa,
                 m_strmap := (m_strmap st)(key := int ?N),
                 m_codeSize := w1, m_nextCode := ?N + 1, m_prefix := ?ch\<rparr>), oa)"
    unfolding w1_def by (rule emit_prefix_eq [OF gb [unfolded P1_def]])
  note c = ctl [unfolded enc_ctl_def]
  show ?thesis
  proof (cases "?N + 1 = MAX_LZW_CODE")
    case False
    define st1 where "st1 = st\<lparr>m_partial := pa, m_partialSize := sa,
                 m_strmap := (m_strmap st)(key := int ?N),
                 m_codeSize := w1, m_nextCode := ?N + 1, m_prefix := ?ch\<rparr>"
    have e: "emit_prefix len key ?ch (st, out) = (st1, oa)"
      unfolding emit st1_def using False by simp
    have c1: "enc_ctl S n i st1" using c by (simp add: enc_ctl_def st1_def)
    have b1: "enc_bits (Suc i) st1 oa tsa"
      using pka bta pal sa8 bia by (simp add: enc_bits_def st1_def)
    have pmax: "?p \<noteq> MAX_LZW_CODE" using p4 by (simp add: MAX_LZW_CODE_def)
    have y1: "enc_sync n st1 g1"
      unfolding enc_sync_def
      using G(2,3,4,6,7,8,9) w1 nw1 w1_12 N1le Nb pmax False N4 lit t
      by (simp add: st1_def MAX_LZW_CODE_def)
    define T1 where "T1 = pending_table g1 (S ! length dout1)"
    have T1: "T1 = T(?N := T ?p @ [?x])"
      unfolding T1_def pending_table_def ld1 using G(2,3,4) pmax by simp
    have ent: "\<And>k. 0 < m_strmap st1 k \<Longrightarrow>
         k div 256 < nat (m_strmap st1 k) \<and> 2 ^ n + 1 < nat (m_strmap st1 k) \<and>
         nat (m_strmap st1 k) < m_nextCode st1 \<and>
         T1 (nat (m_strmap st1 k)) = T1 (k div 256) @ [of_nat (k mod 256)]"
    proof -
      fix k assume k: "0 < m_strmap st1 k"
      show "k div 256 < nat (m_strmap st1 k) \<and> 2 ^ n + 1 < nat (m_strmap st1 k) \<and>
         nat (m_strmap st1 k) < m_nextCode st1 \<and>
         T1 (nat (m_strmap st1 k)) = T1 (k div 256) @ [of_nat (k mod 256)]"
      proof (cases "k = key")
        case True
        have v: "nat (m_strmap st1 k) = ?N" using True by (simp add: st1_def)
        have "T1 ?N = T1 ?p @ [of_nat ?ch]" unfolding T1 using pN by simp
        then show ?thesis unfolding v True kd km using pN Nb by (simp add: st1_def)
      next
        case False
        have v: "m_strmap st1 k = m_strmap st k" using False by (simp add: st1_def)
        from t k [unfolded v] have o: "k div 256 < nat (m_strmap st k)"
            "2 ^ n + 1 < nat (m_strmap st k)" "nat (m_strmap st k) < ?N"
            "T (nat (m_strmap st k)) = T (k div 256) @ [of_nat (k mod 256)]"
          by auto
        have "T1 (nat (m_strmap st k)) = T1 (k div 256) @ [of_nat (k mod 256)]"
          unfolding T1 using o by simp
        then show ?thesis unfolding v using o by (simp add: st1_def)
      qed
    qed
    have pre: "T1 ?ch = [?x]"
    proof -
      have "?ch \<noteq> ?N" using px Nb by simp
      then have "T1 ?ch = T ?ch" unfolding T1 by simp
      then show ?thesis using lit [OF px] by simp
    qed
    have t1: "enc_tab S n (Suc i) st1 g1 dout1"
      unfolding enc_tab_def T1_def [symmetric]
      using ent pre px tk by (simp add: st1_def)
    show ?thesis using e oalen c1 b1 y1 t1 rca by blast
  next
    case True
    define st1 where "st1 = st\<lparr>m_partial := or_shl pa (m_clearCode st) sa,
                 m_partialSize := sa + w1,
                 m_strmap := (\<lambda>i. - 1), m_nextCode := m_endCode st + 1, m_prefix := ?ch,
                 m_codeSize := m_minCodeSize st + 1\<rparr>"
    define g2 where "g2 = ClearDecompressorTable g1"
    define ts1 where "ts1 = tsa @ [(2 ^ n, w1)]"
    have e: "emit_prefix len key ?ch (st, out) = (st1, oa)"
      unfolding emit st1_def using True by simp
    have c1: "enc_ctl S n i st1" using c by (simp add: enc_ctl_def st1_def)
    have cw: "(2::nat) ^ n < 2 ^ w1" using nw1 by simp
    have sw1: "sa + w1 \<le> 32" using sa8 w1_12 by simp
    have o2: "or_shl pa (2 ^ n) sa = pa + 2 ^ n * 2 ^ sa" by (rule or_shl_add [OF pal cw sw1])
    have o2lt: "pa + 2 ^ n * 2 ^ sa < 2 ^ (sa + w1)" by (rule or_shl_lt [OF pal cw])
    have b1: "enc_bits (Suc i) st1 oa ts1"
      unfolding enc_bits_def ts1_def pack_append bits_append
      using pka bta bia o2lt sa8 w1_12 c
      by (simp add: st1_def o2 power_add algebra_simps)
    have ds: "dec_step (2 ^ n) g1 = Some ([], g2)"
      unfolding dec_step_def g2_def using G(4,8,9) Nb by simp
    have rc2: "run_codes g1 [(2 ^ n, w1)] = Some ([], g2)"
      using w1 G(6) cw nw1 w1_12 ds by auto
    have rc1: "run_codes g0 ts1 = Some (dout1, g2)"
      unfolding ts1_def run_codes_append rca using rc2 by simp
    have n4: "(2::nat) ^ n + 2 < 4096"
    proof -
      have "(2::nat) ^ n \<le> 2 ^ 11" using n11 by (intro power_increasing) simp_all
      then show ?thesis by simp
    qed
    have n2': "(2::nat) ^ n + 2 \<le> 2 ^ (n + 1)"
    proof -
      have "(2::nat) ^ 1 \<le> 2 ^ n" using n2 by (intro power_increasing) simp_all
      then show ?thesis by simp
    qed
    have y1: "enc_sync n st1 g2"
      unfolding enc_sync_def g2_def
      using G(7,8,9) c n11 n4 n2'
      by (simp add: st1_def ClearDecompressorTable_def MAX_LZW_CODE_def)
    have T2: "pending_table g2 (S ! length dout1) = m_strings g2"
      by (simp add: pending_table_def g2_def ClearDecompressorTable_def)
    have pre: "m_strings g2 ?ch = [?x]"
      using px G(8) by (simp add: g2_def ClearDecompressorTable_def)
    have t1: "enc_tab S n (Suc i) st1 g2 dout1"
      unfolding enc_tab_def T2 using pre px tk by (simp add: st1_def)
    show ?thesis using e oalen c1 b1 y1 t1 rc1 by blast
  qed
qed

subsection \<open>The whole row through the compressor\<close>

lemma enc_frame:
  "enc_bits i (st\<lparr>m_bufferPos := a, m_bufferShift := b\<rparr>) out ts = enc_bits i st out ts"
  "enc_sync n (st\<lparr>m_bufferPos := a, m_bufferShift := b\<rparr>) g = enc_sync n st g"
  "enc_tab S n i (st\<lparr>m_bufferPos := a, m_bufferShift := b\<rparr>) g dout = enc_tab S n i st g dout"
  by (simp_all add: enc_bits_def enc_sync_def enc_tab_def)

lemma next_pixel_8:
  assumes "enc_ctl S n i st"
  shows "next_pixel st = st\<lparr>m_bufferPos := Suc i, m_bufferShift := 0\<rparr>"
    and "enc_ctl S n (Suc i) (st\<lparr>m_bufferPos := Suc i, m_bufferShift := 0\<rparr>)"
  using assms by (simp_all add: enc_ctl_def next_pixel_def)

lemma Compress_pixel_step:
  assumes inv: "enc_inv S n g0 i st out ts" and i: "i < length S"
      and px: "\<forall>x\<in>set S. unat x < 2 ^ n" and n2: "2 \<le> n" and n11: "n \<le> 11"
      and room: "3 * length S \<le> len"
  shows "\<exists>st' out' ts'. Compress_pixel len (st, out) = Inr (st', out') \<and>
           enc_inv S n g0 (Suc i) st' out' ts'"
proof -
  from inv obtain g dout where ctl: "enc_ctl S n i st" and bt: "enc_bits i st out ts"
    and sy: "enc_sync n st g" and tb: "enc_tab S n i st g dout"
    and rc: "run_codes g0 ts = Some (dout, g)"
    unfolding enc_inv_def by blast
  note c = ctl [unfolded enc_ctl_def]
  let ?ch = "unat (S ! i)"
  define key where "key = m_prefix st * 256 + ?ch"
  have ch: "?ch < 256" using unsigned_less [of "S ! i", where ?'a = nat] by simp
  have pxi: "?ch < 2 ^ n" using px i by simp
  have cp: "current_pixel st = ?ch"
    using c pixel_byte [OF ch] by (simp add: current_pixel_def)
  have p4: "m_prefix st < 4096" by (rule prefix_below_max [OF sy tb n11])
  have np: "((m_prefix st * 2 ^ 8) AND 0xFFF00) + ?ch = key"
    unfolding key_def by (rule prefix_key(1) [OF p4 ch])
  have fp: "firstPixelPassed st" using c by simp
  have np': "(m_prefix st * 256 AND 1048320) + ?ch = key" using np by simp
  have ol0: "length out < len"
  proof -
    have "8 * length out \<le> 24 * i" using bt by (simp add: enc_bits_def)
    then have "8 * length out < 24 * length S" using i by simp
    then show ?thesis using room by simp
  qed
  show ?thesis
  proof (cases "0 < m_strmap st key")
    case True
    let ?s1 = "st\<lparr>m_prefix := nat (m_strmap st key), m_bufferPos := m_bufferPos st + 1,
                      m_bufferShift := 8 - int (m_bpp st)\<rparr>"
    note h = enc_hit [OF ctl bt sy tb i n11 key_def True]
    have nx: "next_pixel (st\<lparr>m_prefix := nat (m_strmap st key)\<rparr>) = ?s1"
      using c by (simp add: next_pixel_def)
    have "Compress_pixel len (st, out) = Inr (?s1, out)"
      unfolding Compress_pixel_def using True fp ol0
      by (simp add: cp np' Let_def nx)
    moreover have "enc_inv S n g0 (Suc i) ?s1 out ts"
      unfolding enc_inv_def using h rc by blast
    ultimately show ?thesis by blast
  next
    case False
    from enc_miss [OF ctl bt sy tb rc i n2 n11 pxi key_def False room]
    obtain st1 out1 ts1 g1 dout1 where
      e: "emit_prefix len key ?ch (st, out) = (st1, out1)" and ol: "length out1 < len"
      and c1: "enc_ctl S n i st1" and b1: "enc_bits (Suc i) st1 out1 ts1"
      and y1: "enc_sync n st1 g1" and t1: "enc_tab S n (Suc i) st1 g1 dout1"
      and r1: "run_codes g0 ts1 = Some (dout1, g1)"
      by blast
    have "Compress_pixel len (st, out) = Inr (st1\<lparr>m_bufferPos := Suc i, m_bufferShift := 0\<rparr>, out1)"
      unfolding Compress_pixel_def using False fp ol
      by (simp add: cp np' Let_def e next_pixel_8(1) [OF c1])
    moreover have "enc_inv S n g0 (Suc i) (st1\<lparr>m_bufferPos := Suc i, m_bufferShift := 0\<rparr>) out1 ts1"
      unfolding enc_inv_def
      using next_pixel_8(2) [OF c1] b1 y1 t1 r1 by (auto simp: enc_frame)
    ultimately show ?thesis by blast
  qed
qed

lemma Compress_loop_row:
  assumes "enc_inv S n g0 i st out ts" and "i \<le> length S"
      and "\<forall>x\<in>set S. unat x < 2 ^ n" and "2 \<le> n" and "n \<le> 11"
      and "3 * length S \<le> len"
  shows "\<exists>st' out' ts'. Compress_loop len (st, out) = Some (True, out', st'\<lparr>m_bufferSize := 0\<rparr>) \<and>
           enc_inv S n g0 (length S) st' out' ts'"
  using assms(1,2)
proof (induction "length S - i" arbitrary: i st out ts rule: less_induct)
  case less
  have c: "enc_ctl S n i st" using less.prems(1) unfolding enc_inv_def by blast
  show ?case
  proof (cases "i < length S")
    case True
    from Compress_pixel_step [OF less.prems(1) True assms(3-6)]
    obtain st1 out1 ts1 where p: "Compress_pixel len (st, out) = Inr (st1, out1)"
      and inv1: "enc_inv S n g0 (Suc i) st1 out1 ts1" by blast
    have m: "length S - Suc i < length S - i" using True by simp
    have le: "Suc i \<le> length S" using True by simp
    have u: "Compress_loop len (st, out) = Compress_loop len (st1, out1)"
      using c True by (subst Compress_loop.simps) (simp add: enc_ctl_def p)
    show ?thesis unfolding u by (rule less.hyps [OF m inv1 le])
  next
    case False
    then have e: "i = length S" using less.prems(2) by simp
    have "Compress_loop len (st, out) = Some (True, out, st\<lparr>m_bufferSize := 0\<rparr>)"
      using c e by (subst Compress_loop.simps) (simp add: enc_ctl_def)
    then show ?thesis using less.prems(1) e by blast
  qed
qed

text \<open>The first pixel of the image after Initialize, CompressStart and FillInputBuffer.\<close>

lemma Compress_first:
  fixes memory :: StringTable and width :: nat
  assumes S: "S \<noteq> []" and n2: "2 \<le> n" and n11: "n \<le> 11" and px: "unat (S ! 0) < 2 ^ n"
      and len: "0 < len" and g0: "dec_init n g0"
  defines "st0 \<equiv> FillInputBuffer S (CompressStart 8 width (Initialize n (new_StringTable memory)))"
  shows "\<exists>st1. Compress len st0 = Compress_loop len (st1, []) \<and>
           enc_inv S n g0 1 st1 [] [(2 ^ n, n + 1)]"
proof -
  have le: "(2::nat) ^ n \<le> 2 ^ 11" using n11 by (intro power_increasing) simp_all
  then have clamp: "\<not> (2::nat) ^ n > MAX_LZW_CODE" by (simp add: MAX_LZW_CODE_def)
  have lt32: "(2::nat) ^ n < 2 ^ 32"
  proof -
    have "(2::nat) ^ 11 < 2 ^ 32" by simp
    then show ?thesis using le by linarith
  qed
  have o: "or_shl 0 (2 ^ n) 0 = 2 ^ n" using lt32 by (simp add: or_shl_def)
  define ch where "ch = unat (S ! 0)"
  have chb: "ch < 256" unfolding ch_def using unsigned_less [of "S ! 0", where ?'a = nat] by simp
  define st1 where "st1 = st0\<lparr>firstPixelPassed := True, m_prefix := ch, m_bufferPos := 1,
                              m_bufferShift := 0\<rparr>"
  have f0: "\<not> firstPixelPassed st0" "m_bufferPos st0 = 0" "m_bufferSize st0 = length S"
      "m_bpp st0 = 8" "m_bufferShift st0 = 0" "m_buffer st0 = S" "\<not> m_done st0"
      "m_minCodeSize st0 = n" "m_clearCode st0 = 2 ^ n" "m_endCode st0 = 2 ^ n + 1"
      "m_partial st0 = 2 ^ n" "m_partialSize st0 = n + 1" "m_strmap st0 = (\<lambda>i. - 1)"
      "m_nextCode st0 = 2 ^ n + 2" "m_codeSize st0 = n + 1"
    using clamp
    by (simp_all add: st0_def FillInputBuffer_def CompressStart_def Initialize_def
        new_StringTable_def ClearCompressorTable_def ClearDecompressorTable_def o)
  have cp: "current_pixel st0 = ch"
    using f0 S pixel_byte [OF chb] by (simp add: current_pixel_def ch_def)
  have np: "next_pixel (st0\<lparr>firstPixelPassed := True, m_prefix := ch\<rparr>) = st1"
    using f0 by (simp add: next_pixel_def st1_def)
  have pix: "Compress_pixel len (st0, []) = Inr (st1, [])"
    unfolding Compress_pixel_def using f0 len by (simp add: cp Let_def np)
  have run: "Compress len st0 = Compress_loop len (st1, [])"
    unfolding Compress_def using f0 S
    by (subst Compress_loop.simps) (simp add: pix)
  note d = g0 [unfolded dec_init_def]
  define g where "g = ClearDecompressorTable g0"
  have nn: "(2::nat) ^ n < 2 ^ (n + 1)" by simp
  have ds: "dec_step (2 ^ n) g0 = Some ([], g)"
    unfolding dec_step_def g_def using d by simp
  have rc: "run_codes g0 [(2 ^ n, n + 1)] = Some ([], g)"
    using d nn n11 ds by auto
  have c1: "enc_ctl S n 1 st1" using f0 by (simp add: enc_ctl_def st1_def)
  have b1: "enc_bits 1 st1 [] [(2 ^ n, n + 1)]"
    using f0 n11 by (simp add: enc_bits_def st1_def)
  have n4: "(2::nat) ^ n + 2 < 4096" using le by simp
  have n1: "2 \<le> (2::nat) ^ n"
  proof -
    have "(2::nat) ^ 1 \<le> 2 ^ n" using n2 by (intro power_increasing) simp_all
    then show ?thesis by simp
  qed
  have y1: "enc_sync n st1 g"
    unfolding enc_sync_def g_def using f0 d n11 n4 n1
    by (simp add: st1_def ClearDecompressorTable_def MAX_LZW_CODE_def)
  have T: "pending_table g (S ! length ([] :: byte list)) = m_strings g"
    by (simp add: pending_table_def g_def ClearDecompressorTable_def)
  have pre: "m_strings g ch = [S ! 0]"
    using px d by (simp add: g_def ClearDecompressorTable_def ch_def)
  have tk: "take 1 S = [S ! 0]" using S by (cases S) simp_all
  have t1: "enc_tab S n 1 st1 g []"
    unfolding enc_tab_def T using f0 pre px tk by (simp add: st1_def ch_def)
  have "enc_inv S n g0 1 st1 [] [(2 ^ n, n + 1)]"
    unfolding enc_inv_def using c1 b1 y1 t1 rc by blast
  then show ?thesis using run by blast
qed


subsection \<open>CompressEnd and the whole stream\<close>

lemma CompressEnd_frame: "CompressEnd (st\<lparr>m_bufferSize := b\<rparr>) = CompressEnd st"
  by (simp add: CompressEnd_def)

lemma CompressEnd_bytes:
  assumes p: "m_partial st < 2 ^ m_partialSize st" and ps: "m_partialSize st < 20"
      and x: "m_prefix st < 2 ^ m_codeSize st" and e: "m_endCode st < 2 ^ m_codeSize st"
      and w: "m_codeSize st \<le> 12"
  shows "bytes_val (CompressEnd st) =
           m_partial st + m_prefix st * 2 ^ m_partialSize st
             + m_endCode st * 2 ^ (m_partialSize st + m_codeSize st)"
    and "m_partialSize st + 2 * m_codeSize st \<le> 8 * length (CompressEnd st)"
proof -
  let ?s = "m_partialSize st" and ?w = "m_codeSize st"
  define P where "P = m_partial st + m_prefix st * 2 ^ ?s"
  have o1: "or_shl (m_partial st) (m_prefix st) ?s = P"
    unfolding P_def by (rule or_shl_add [OF p x]) (use ps w in simp)
  have Plt: "P < 2 ^ (?s + ?w)" unfolding P_def by (rule or_shl_lt [OF p x])
  have s31: "?s + ?w \<le> 31" using ps w by simp
  obtain p1 s1 out1 where f: "full_bytes (P, ?s + ?w, []) = (p1, s1, out1)"
    by (cases "full_bytes (P, ?s + ?w, [])") auto
  note r1 = full_bytes_result [OF f Plt s31]
  have p1: "p1 < 2 ^ s1" and s1: "s1 < 8" using r1 by simp_all
  have v1: "bytes_val out1 + 2 ^ (8 * length out1) * p1 = P" using r1 by simp
  have l1: "8 * length out1 + s1 = ?s + ?w" using r1 by simp
  define Q where "Q = p1 + m_endCode st * 2 ^ s1"
  have o2: "or_shl p1 (m_endCode st) s1 = Q"
    unfolding Q_def by (rule or_shl_add [OF p1 e]) (use s1 w in simp)
  have Qlt: "Q < 2 ^ (s1 + ?w)" unfolding Q_def by (rule or_shl_lt [OF p1 e])
  have q31: "s1 + ?w \<le> 31" using s1 w by simp
  obtain p2 s2 out2 where g: "flush_bytes (Q, s1 + ?w, out1) = (p2, s2, out2)"
    by (cases "flush_bytes (Q, s1 + ?w, out1)") auto
  note r2 = flush_bytes_result [OF g Qlt q31]
  have ce: "CompressEnd st = out2"
    unfolding CompressEnd_def by (simp add: o1 f o2 g)
  have "bytes_val out2 = bytes_val out1 + 2 ^ (8 * length out1) * Q" using r2 by simp
  also have "\<dots> = (bytes_val out1 + 2 ^ (8 * length out1) * p1)
                    + 2 ^ (8 * length out1 + s1) * m_endCode st"
    unfolding Q_def by (simp add: algebra_simps power_add)
  also have "\<dots> = P + 2 ^ (?s + ?w) * m_endCode st" unfolding v1 l1 ..
  finally show "bytes_val (CompressEnd st) =
      m_partial st + m_prefix st * 2 ^ ?s + m_endCode st * 2 ^ (?s + ?w)"
    unfolding ce P_def by (simp add: mult.commute)
  have "8 * length out1 + (s1 + ?w) \<le> 8 * length out2" using r2 by simp
  then show "?s + 2 * ?w \<le> 8 * length (CompressEnd st)" unfolding ce using l1 by simp
qed

text \<open>
  After the last pixel of the row: CompressEnd completes the bytes of a stream of codes
  that the decompressor turns into the row, followed by the end code.
\<close>

lemma CompressEnd_stream:
  assumes inv: "enc_inv S n g0 (length S) st out ts" and n2: "2 \<le> n"
  shows "\<exists>ts' g'. run_codes g0 ts' = Some (S, g') \<and>
           bytes_val (out @ CompressEnd st) = pack ts' + 2 ^ code_bits ts' * m_endCode g' \<and>
           code_bits ts' \<le> 8 * length (out @ CompressEnd st) \<and>
           m_endCode g' < 2 ^ m_codeSize g' \<and>
           m_codeMask g' = 2 ^ m_codeSize g' - 1 \<and>
           m_codeSize g' \<le> 12"
proof -
  from inv obtain g dout where ctl: "enc_ctl S n (length S) st" and bt: "enc_bits (length S) st out ts"
    and sy: "enc_sync n st g" and tb: "enc_tab S n (length S) st g dout"
    and rc: "run_codes g0 ts = Some (dout, g)"
    unfolding enc_inv_def by blast
  let ?p = "m_prefix st" and ?w = "m_codeSize st" and ?s = "m_partialSize st"
  define g1 where "g1 = advance_code ?p (g\<lparr>m_strings := pending_table g (S ! length dout)\<rparr>)"
  note ge = ghost_emit [OF sy tb le_refl n2, folded g1_def]
  note s = sy [unfolded enc_sync_def]
  note b = bt [unfolded enc_bits_def]
  note c = ctl [unfolded enc_ctl_def]
  have data: "dout @ pending_table g (S ! length dout) ?p = S"
    using tb by (simp add: enc_tab_def)
  have rc': "run_codes g0 (ts @ [(?p, ?w)]) = Some (S, g1)"
    unfolding run_codes_append rc using ge(1) data by simp
  have w12: "?w \<le> 12" using s by simp
  have pw: "?p < 2 ^ ?w" using ge(10) s by simp
  have nw: "Suc n \<le> ?w" using s by simp
  have E: "(2::nat) ^ n + 1 < 2 ^ ?w"
  proof -
    have "(2::nat) ^ 1 \<le> 2 ^ n" using n2 by (intro power_increasing) simp_all
    then have "(2::nat) ^ n + 1 < 2 ^ Suc n" by simp
    moreover have "(2::nat) ^ Suc n \<le> 2 ^ ?w" using nw by (intro power_increasing) simp_all
    ultimately show ?thesis by linarith
  qed
  have ew: "m_endCode st < 2 ^ ?w" using c E by simp
  have pp: "m_partial st < 2 ^ ?s" and ps: "?s < 20" using b by simp_all
  note cb = CompressEnd_bytes [OF pp ps pw ew w12]
  have es: "m_endCode st = m_endCode g1" using c ge(9) by simp
  have val: "bytes_val (out @ CompressEnd st)
       = pack (ts @ [(?p, ?w)]) + 2 ^ code_bits (ts @ [(?p, ?w)]) * m_endCode g1"
  proof -
    have "bytes_val (out @ CompressEnd st)
        = bytes_val out + 2 ^ (8 * length out) * (m_partial st + ?p * 2 ^ ?s
            + m_endCode st * 2 ^ (?s + ?w))"
      unfolding bytes_val_append cb(1) ..
    also have "\<dots> = (bytes_val out + 2 ^ (8 * length out) * m_partial st)
            + 2 ^ (8 * length out + ?s) * ?p + 2 ^ (8 * length out + ?s + ?w) * m_endCode st"
      by (simp add: algebra_simps power_add)
    also have "\<dots> = pack ts + 2 ^ code_bits ts * ?p + 2 ^ (code_bits ts + ?w) * m_endCode st"
      using b by simp
    finally show ?thesis unfolding pack_append bits_append es by simp
  qed
  have av: "code_bits (ts @ [(?p, ?w)]) \<le> 8 * length (out @ CompressEnd st)"
    using b cb(2) by (simp add: bits_append)
  have cs: "?w \<le> m_codeSize g1" using ge(5) by simp
  have e1: "m_endCode g1 < 2 ^ m_codeSize g1"
  proof -
    have "(2::nat) ^ ?w \<le> 2 ^ m_codeSize g1" using cs by (intro power_increasing) simp_all
    then have "(2::nat) ^ n + 1 < 2 ^ m_codeSize g1" using E by linarith
    then show ?thesis unfolding ge(9) .
  qed
  have c12: "m_codeSize g1 \<le> 12"
  proof (cases "m_nextCode st = 2 ^ ?w")
    case True
    have "?w \<noteq> 12" using True s by (auto simp: MAX_LZW_CODE_def)
    then show ?thesis using True ge(5) w12 by simp
  next
    case False
    then show ?thesis using ge(5) w12 by simp
  qed
  show ?thesis using rc' val av e1 ge(6) c12 by blast
qed

lemma dec_init_Initialize:
  assumes "n \<le> 11"
  shows "dec_init n (Initialize n (new_StringTable memory))"
proof -
  have "(2::nat) ^ n \<le> 2 ^ 11" using assms by (intro power_increasing) simp_all
  then have "\<not> (2::nat) ^ n > MAX_LZW_CODE" by (simp add: MAX_LZW_CODE_def)
  then show ?thesis
    by (simp add: dec_init_def Initialize_def new_StringTable_def ClearCompressorTable_def
        ClearDecompressorTable_def)
qed

text \<open>
  Claim C1, as it holds. One row \<open>S\<close> of pixels at 8 bits per pixel, not empty, each
  pixel below \<open>2 ^ n\<close> for the minimum code size \<open>n\<close> from 2 to 11, goes through
  Initialize, CompressStart, FillInputBuffer and one call of Compress with room for three
  bytes per pixel; the call returns true with the bytes it wrote. These bytes followed by
  the bytes of CompressEnd, given in one piece to a decompressor initialised with the
  same \<open>n\<close> and with room for the row, come back from one call of Decompress as \<open>S\<close>.
  The row may be as long as one likes, so the table may fill and restart any number of
  times.
\<close>

theorem Decompress_inverts_Compress:
  fixes memory memory' :: StringTable and width :: nat
  assumes S: "S \<noteq> []" and n2: "2 \<le> n" and n11: "n \<le> 11"
      and px: "\<forall>x\<in>set S. unat x < 2 ^ n"
      and room: "3 * length S \<le> len" and room': "length S \<le> len'"
  shows "\<exists>out st.
           Compress len (FillInputBuffer S (CompressStart 8 width
               (Initialize n (new_StringTable memory)))) = Some (True, out, st) \<and>
           (\<exists>st'. Decompress len' (FillInputBuffer (out @ CompressEnd st)
               (Initialize n (new_StringTable memory'))) = Some (True, S, st'))"
proof -
  define g0 where "g0 = Initialize n (new_StringTable memory')"
  have g0: "dec_init n g0" unfolding g0_def by (rule dec_init_Initialize [OF n11])
  have l0: "0 < length S" using S by simp
  have len: "0 < len" using l0 room by linarith
  have p0: "unat (S ! 0) < 2 ^ n" using px l0 by simp
  from Compress_first [where memory = memory and width = width, OF S n2 n11 p0 len g0]
  obtain st1 where
    run1: "Compress len (FillInputBuffer S (CompressStart 8 width
             (Initialize n (new_StringTable memory)))) = Compress_loop len (st1, [])"
    and inv1: "enc_inv S n g0 1 st1 [] [(2 ^ n, n + 1)]"
    by blast
  have l1: "1 \<le> length S" using S by (cases S) simp_all
  from Compress_loop_row [OF inv1 l1 px n2 n11 room]
  obtain st2 out ts where
    run2: "Compress_loop len (st1, []) = Some (True, out, st2\<lparr>m_bufferSize := 0\<rparr>)"
    and inv2: "enc_inv S n g0 (length S) st2 out ts"
    by blast
  from CompressEnd_stream [OF inv2 n2]
  obtain ts' g' where rc: "run_codes g0 ts' = Some (S, g')"
    and val: "bytes_val (out @ CompressEnd st2) = pack ts' + 2 ^ code_bits ts' * m_endCode g'"
    and av: "code_bits ts' \<le> 8 * length (out @ CompressEnd st2)"
    and fin: "m_endCode g' < 2 ^ m_codeSize g'" "m_codeMask g' = 2 ^ m_codeSize g' - 1"
             "m_codeSize g' \<le> 12"
    by blast
  let ?B = "out @ CompressEnd st2"
  let ?d = "FillInputBuffer ?B g0"
  have B: "?B \<noteq> []"
  proof
    assume "?B = []"
    then have "code_bits ts' = 0" using av by simp
    then have "ts' = [] \<or> (\<exists>c ts. ts' = (c, 0) # ts)"
      by (cases ts') auto
    then show False
    proof
      assume "ts' = []"
      then show False using rc S by simp
    next
      assume "\<exists>c ts. ts' = (c, 0) # ts"
      then show False using rc by auto
    qed
  qed
  have tb: "tab ?d = tab g0" by (simp add: tab_def FillInputBuffer_def)
  have d: "m_bufferSize ?d = length (m_buffer ?d)" "m_bufferPos ?d = 0" "m_partial ?d = 0"
      "m_partialSize ?d = 0" "\<not> m_done ?d" "m_buffer ?d \<noteq> []"
    using B by (simp_all add: FillInputBuffer_def g0_def Initialize_def
        ClearCompressorTable_def ClearDecompressorTable_def)
  have val': "bytes_val (m_buffer ?d) = pack ts' + 2 ^ code_bits ts' * m_endCode g'"
    using val by (simp add: FillInputBuffer_def)
  have av': "code_bits ts' \<le> 8 * length (m_buffer ?d)"
    using av by (simp add: FillInputBuffer_def)
  from Decompress_stream [OF rc tb d val' av' room' refl fin]
  obtain st' where dec: "Decompress len' ?d = Some (True, S, st')" by blast
  have "Decompress len' (FillInputBuffer (out @ CompressEnd (st2\<lparr>m_bufferSize := 0\<rparr>))
          (Initialize n (new_StringTable memory'))) = Some (True, S, st')"
    using dec unfolding CompressEnd_frame g0_def .
  then show ?thesis using run1 run2 by auto
qed

theorem Decompress_inverts_Compress_witness:
  "\<exists>out st.
     Compress 21 (FillInputBuffer [1, 0, 1, 0, 1, 0, 1] (CompressStart 8 7
         (Initialize 2 (new_StringTable zero_memory)))) = Some (True, out, st) \<and>
     (\<exists>st'. Decompress 7 (FillInputBuffer (out @ CompressEnd st)
         (Initialize 2 (new_StringTable zero_memory))) = Some (True, [1, 0, 1, 0, 1, 0, 1], st'))"
  using Decompress_inverts_Compress [where S = "[1, 0, 1, 0, 1, 0, 1]" and n = 2 and len = 21
      and len' = 7 and memory = zero_memory and memory' = zero_memory and width = 7]
  by simp

text \<open>
  C1 fails for the empty row. With no pixel in the input buffer Compress returns false and
  writes nothing; CompressEnd then writes the clear code that CompressStart has left in the
  bit buffer, the code of \<open>m_prefix\<close>, which is 0, and the end code: the bytes 0x44, 0x01
  at minimum code size 2. Decompress turns them into the one pixel 0.
\<close>

theorem Decompress_of_empty_row_counterexample:
  "map_option (\<lambda>(r, out, st). (r, out, CompressEnd st))
     (Compress 8 (FillInputBuffer []
        (CompressStart 8 0 (Initialize 2 (new_StringTable zero_memory)))))
     = Some (False, [], [0x44, 0x01])
   \<and> map_option (\<lambda>(r, out, st). (r, out))
     (Decompress 8 (FillInputBuffer ([] @ [0x44, 0x01])
        (Initialize 2 (new_StringTable zero_memory))))
     = Some (True, [0])"
  by (simp add: lzw_eval)

subsection \<open>Calls with a small output buffer\<close>

text \<open>
  Claim C2. The stream of the three pixels 0, 0, 0 at minimum code size 2 is the two
  bytes 0x84, 0x0B. Decompress with room for three bytes returns the three pixels in one
  call. Called with room for two bytes, as often as it returns true, it returns one
  pixel: the code of the string 0, 0 is read from the last input byte when one byte of
  room is left, it is put back into the bit buffer and \<open>m_bufferPos\<close> passes the end of
  the input, so the next call ends the input without looking at the bit buffer.
\<close>

theorem Decompress_drops_code_put_back:
  "map_option (\<lambda>(r, out, st). out @ CompressEnd st)
     (Compress 11 (FillInputBuffer [0, 0, 0]
        (CompressStart 8 3 (Initialize 2 (new_StringTable zero_memory)))))
     = Some three_zeros
   \<and> map_option (\<lambda>(r, out, st). (r, out))
     (Decompress 3 (FillInputBuffer three_zeros (Initialize 2 (new_StringTable zero_memory))))
     = Some (True, [0, 0, 0])
   \<and> map_option fst
     (Decompress_calls 2 (FillInputBuffer three_zeros (Initialize 2 (new_StringTable zero_memory)))
        [])
     = Some [0]"
  by (simp add: lzw_eval three_zeros_def)

end
